theory Spec2Isabelle
  imports Main "HOL-Library.Multiset"
begin

section \<open>Search functions (data\_structures/arrays.py)\<close>

subsection \<open>two\_sum\<close>

text \<open>
  \<^verbatim>\<open>
  def two_sum(arr, target):
      seen = {}
      for i, num in enumerate(arr):
          complement = target - num
          if complement in seen:
              return [seen[complement], i]
          seen[num] = i
      return None
  \<close>
  The dictionary \<open>seen\<close> is a map from values to indices, the loop is a recursion over
  the rest of the list with the running index \<open>i\<close>. The result \<open>Some (a, b)\<close> is the
  Python list \<open>[a, b]\<close>, \<open>None\<close> is Python's \<open>None\<close>.
\<close>

fun two_sum_loop :: "int \<Rightarrow> (int \<rightharpoonup> nat) \<Rightarrow> nat \<Rightarrow> int list \<Rightarrow> (nat \<times> nat) option" where
  "two_sum_loop target seen i [] = None"
| "two_sum_loop target seen i (num # rest) =
     (let complement = target - num in
      case seen complement of
        Some k \<Rightarrow> Some (k, i)
      | None \<Rightarrow> two_sum_loop target (seen(num \<mapsto> i)) (Suc i) rest)"

definition two_sum :: "int list \<Rightarrow> int \<Rightarrow> (nat \<times> nat) option" where
  "two_sum arr target = two_sum_loop target Map.empty 0 arr"




section \<open>The resizable array (data\_structures/arrays.py, class DynamicArray)\<close>

subsection \<open>Python lists and exceptions\<close>

text \<open>The two exceptions the class raises or lets escape.\<close>

datatype error = IndexError | ValueError

text \<open>
  Python's \<^verbatim>\<open>xs[i]\<close> and \<^verbatim>\<open>xs[i] = v\<close> on a list: a negative index counts from
  the end, an index outside \<open>[-len, len)\<close> raises IndexError. \<open>list_index\<close> is the
  position an index stands for, if any.
\<close>

definition list_index :: "'a list \<Rightarrow> int \<Rightarrow> nat option" where
  "list_index xs i =
     (if 0 \<le> i \<and> i < int (length xs) then Some (nat i)
      else if i < 0 \<and> - int (length xs) \<le> i then Some (nat (int (length xs) + i))
      else None)"

definition list_get :: "'a list \<Rightarrow> int \<Rightarrow> error + 'a" where
  "list_get xs i =
     (case list_index xs i of
        None \<Rightarrow> Inl IndexError
      | Some k \<Rightarrow> Inr (xs ! k))"

definition list_set :: "'a list \<Rightarrow> int \<Rightarrow> 'a \<Rightarrow> error + 'a list" where
  "list_set xs i v =
     (case list_index xs i of
        None \<Rightarrow> Inl IndexError
      | Some k \<Rightarrow> Inr (xs[k := v]))"

subsection \<open>The object\<close>

text \<open>
  The fields \<^verbatim>\<open>_capacity\<close>, \<^verbatim>\<open>_size\<close> and \<^verbatim>\<open>_array\<close>. Python integers are
  unbounded, so both counters are \<open>int\<close>. A slot holds a Python value; \<open>None\<close> is
  Python's \<^verbatim>\<open>None\<close>, so a stored value has type \<open>'a option\<close>.
  The field \<open>resize_calls\<close> is not in the source: it is a ghost field that records, for
  every call of \<^verbatim>\<open>_resize\<close>, the requested capacity and the size at the time of the call.
\<close>

record 'a DynamicArray =
  capacity :: int
  size :: int
  array :: "'a option list"
  resize_calls :: "(int \<times> int) list"

text \<open>
  A method takes the object and returns what the call produced (\<open>Inl\<close> the exception
  raised, \<open>Inr\<close> the value returned) together with the object as the call left it.
\<close>

type_synonym ('a, 'r) da_method = "'a DynamicArray \<Rightarrow> (error + 'r) \<times> 'a DynamicArray"

text \<open>
  \<^verbatim>\<open>
  def __init__(self, capacity=10):
      self._capacity = capacity
      self._size = 0
      self._array = [None] * capacity
  \<close>
  \<^verbatim>\<open>[None] * capacity\<close> is the empty list when \<open>capacity\<close> is zero or negative.
\<close>

definition init :: "int \<Rightarrow> 'a DynamicArray" where
  "init c = \<lparr>capacity = c, size = 0, array = replicate (nat c) None, resize_calls = []\<rparr>"

definition len :: "'a DynamicArray \<Rightarrow> int" where
  "len d = size d"

text \<open>
  \<^verbatim>\<open>
  def __getitem__(self, index):
      if not 0 <= index < self._size:
          raise IndexError("Index out of bounds")
      return self._array[index]
  \<close>
\<close>

definition getitem :: "int \<Rightarrow> ('a, 'a option) da_method" where
  "getitem index d =
     (if \<not> (0 \<le> index \<and> index < size d) then (Inl IndexError, d)
      else case list_get (array d) index of
             Inl e \<Rightarrow> (Inl e, d)
           | Inr x \<Rightarrow> (Inr x, d))"

text \<open>
  \<^verbatim>\<open>
  def __setitem__(self, index, value):
      if not 0 <= index < self._size:
          raise IndexError("Index out of bounds")
      self._array[index] = value
  \<close>
\<close>

definition setitem :: "int \<Rightarrow> 'a option \<Rightarrow> ('a, unit) da_method" where
  "setitem index v d =
     (if \<not> (0 \<le> index \<and> index < size d) then (Inl IndexError, d)
      else case list_set (array d) index v of
             Inl e \<Rightarrow> (Inl e, d)
           | Inr a \<Rightarrow> (Inr (), d\<lparr>array := a\<rparr>))"

text \<open>
  \<^verbatim>\<open>
  def _resize(self, new_capacity):
      new_array = [None] * new_capacity
      for i in range(self._size):
          new_array[i] = self._array[i]
      self._array = new_array
      self._capacity = new_capacity
  \<close>
  \<open>copy_loop\<close> is the \<^verbatim>\<open>for\<close> loop from index \<open>i\<close> on. The new list is local until the
  loop is over, so an exception in the loop leaves the object as it was.
\<close>

function copy_loop :: "int \<Rightarrow> int \<Rightarrow> 'a list \<Rightarrow> 'a list \<Rightarrow> error + 'a list" where
  "copy_loop i n src new_array =
     (if i < n then
        (case list_get src i of
           Inl e \<Rightarrow> Inl e
         | Inr x \<Rightarrow>
             (case list_set new_array i x of
                Inl e \<Rightarrow> Inl e
              | Inr new_array' \<Rightarrow> copy_loop (i + 1) n src new_array'))
      else Inr new_array)"
  by pat_completeness auto
termination
  by (relation "measure (\<lambda>(i, n, src, new_array). nat (n - i))") auto

declare copy_loop.simps [simp del]

definition resize :: "int \<Rightarrow> ('a, unit) da_method" where
  "resize new_capacity d =
     (let d0 = d\<lparr>resize_calls := resize_calls d @ [(new_capacity, size d)]\<rparr> in
      case copy_loop 0 (size d) (array d) (replicate (nat new_capacity) None) of
        Inl e \<Rightarrow> (Inl e, d0)
      | Inr new_array \<Rightarrow> (Inr (), d0\<lparr>array := new_array, capacity := new_capacity\<rparr>))"

text \<open>
  \<^verbatim>\<open>
  def append(self, value):
      if self._size == self._capacity:
          self._resize(2 * self._capacity)
      self._array[self._size] = value
      self._size += 1
  \<close>
\<close>

definition append_da :: "'a option \<Rightarrow> ('a, unit) da_method" where
  "append_da v d =
     (case (if size d = capacity d then resize (2 * capacity d) d else (Inr (), d)) of
        (Inl e, d1) \<Rightarrow> (Inl e, d1)
      | (Inr u, d1) \<Rightarrow>
          (case list_set (array d1) (size d1) v of
             Inl e \<Rightarrow> (Inl e, d1)
           | Inr a \<Rightarrow> (Inr (), d1\<lparr>array := a, size := size d1 + 1\<rparr>)))"

text \<open>
  \<^verbatim>\<open>
  def insert(self, index, value):
      if not 0 <= index <= self._size:
          raise IndexError("Index out of bounds")
      if self._size == self._capacity:
          self._resize(2 * self._capacity)
      for i in range(self._size, index, -1):
          self._array[i] = self._array[i - 1]
      self._array[index] = value
      self._size += 1
  \<close>
  \<open>shift_right\<close> is the \<^verbatim>\<open>for\<close> loop from \<open>i\<close> downwards. It writes into the object's
  own list, so it returns the list as the loop left it, also when an access raised.
\<close>

function shift_right :: "int \<Rightarrow> int \<Rightarrow> 'a list \<Rightarrow> error option \<times> 'a list" where
  "shift_right i index xs =
     (if i > index then
        (case list_get xs (i - 1) of
           Inl e \<Rightarrow> (Some e, xs)
         | Inr x \<Rightarrow>
             (case list_set xs i x of
                Inl e \<Rightarrow> (Some e, xs)
              | Inr xs' \<Rightarrow> shift_right (i - 1) index xs'))
      else (None, xs))"
  by pat_completeness auto
termination
  by (relation "measure (\<lambda>(i, index, xs). nat (i - index))") auto

declare shift_right.simps [simp del]

definition insert_da :: "int \<Rightarrow> 'a option \<Rightarrow> ('a, unit) da_method" where
  "insert_da index v d =
     (if \<not> (0 \<le> index \<and> index \<le> size d) then (Inl IndexError, d)
      else
        case (if size d = capacity d then resize (2 * capacity d) d else (Inr (), d)) of
          (Inl e, d1) \<Rightarrow> (Inl e, d1)
        | (Inr u, d1) \<Rightarrow>
            (case shift_right (size d1) index (array d1) of
               (Some e, a) \<Rightarrow> (Inl e, d1\<lparr>array := a\<rparr>)
             | (None, a) \<Rightarrow>
                 (case list_set a index v of
                    Inl e \<Rightarrow> (Inl e, d1\<lparr>array := a\<rparr>)
                  | Inr a' \<Rightarrow> (Inr (), d1\<lparr>array := a', size := size d1 + 1\<rparr>))))"

text \<open>
  \<^verbatim>\<open>
  def pop(self, index=-1):
      if self._size == 0:
          raise IndexError("Pop from empty array")
      if index < 0:
          index = self._size + index
      if not 0 <= index < self._size:
          raise IndexError("Index out of bounds")
      value = self._array[index]
      for i in range(index, self._size - 1):
          self._array[i] = self._array[i + 1]
      self._array[self._size - 1] = None
      self._size -= 1
      if self._size > 0 and self._size == self._capacity // 4:
          self._resize(self._capacity // 2)
      return value
  \<close>
  \<open>shift_left\<close> is the \<^verbatim>\<open>for\<close> loop from \<open>i\<close> upwards; \<^verbatim>\<open>//\<close> is floor division, which
  is \<open>div\<close> on \<open>int\<close>. The default argument is \<open>pop (-1)\<close>.
\<close>

function shift_left :: "int \<Rightarrow> int \<Rightarrow> 'a list \<Rightarrow> error option \<times> 'a list" where
  "shift_left i n xs =
     (if i < n then
        (case list_get xs (i + 1) of
           Inl e \<Rightarrow> (Some e, xs)
         | Inr x \<Rightarrow>
             (case list_set xs i x of
                Inl e \<Rightarrow> (Some e, xs)
              | Inr xs' \<Rightarrow> shift_left (i + 1) n xs'))
      else (None, xs))"
  by pat_completeness auto
termination
  by (relation "measure (\<lambda>(i, n, xs). nat (n - i))") auto

declare shift_left.simps [simp del]

definition pop :: "int \<Rightarrow> ('a, 'a option) da_method" where
  "pop index0 d =
     (if size d = 0 then (Inl IndexError, d)
      else
        let index = (if index0 < 0 then size d + index0 else index0) in
        if \<not> (0 \<le> index \<and> index < size d) then (Inl IndexError, d)
        else
          case list_get (array d) index of
            Inl e \<Rightarrow> (Inl e, d)
          | Inr v \<Rightarrow>
              (case shift_left index (size d - 1) (array d) of
                 (Some e, a) \<Rightarrow> (Inl e, d\<lparr>array := a\<rparr>)
               | (None, a) \<Rightarrow>
                   (case list_set a (size d - 1) None of
                      Inl e \<Rightarrow> (Inl e, d\<lparr>array := a\<rparr>)
                    | Inr a' \<Rightarrow>
                        (let d1 = d\<lparr>array := a', size := size d - 1\<rparr> in
                         if size d1 > 0 \<and> size d1 = capacity d1 div 4 then
                           (case resize (capacity d1 div 2) d1 of
                              (Inl e, d2) \<Rightarrow> (Inl e, d2)
                            | (Inr u, d2) \<Rightarrow> (Inr v, d2))
                         else (Inr v, d1)))))"

text \<open>
  \<^verbatim>\<open>
  def remove(self, value):
      for i in range(self._size):
          if self._array[i] == value:
              self.pop(i)
              return
      raise ValueError(f"{value} not found in array")
  \<close>
  \<open>remove_loop\<close> is the \<^verbatim>\<open>for\<close> loop from index \<open>i\<close> on.
\<close>

function remove_loop :: "int \<Rightarrow> 'a option \<Rightarrow> ('a, unit) da_method" where
  "remove_loop i v d =
     (if i < size d then
        (case list_get (array d) i of
           Inl e \<Rightarrow> (Inl e, d)
         | Inr x \<Rightarrow>
             if x = v then
               (case pop i d of
                  (Inl e, d') \<Rightarrow> (Inl e, d')
                | (Inr u, d') \<Rightarrow> (Inr (), d'))
             else remove_loop (i + 1) v d)
      else (Inl ValueError, d))"
  by pat_completeness auto
termination
  by (relation "measure (\<lambda>(i, v, d). nat (size d - i))") auto

declare remove_loop.simps [simp del]

definition remove_da :: "'a option \<Rightarrow> ('a, unit) da_method" where
  "remove_da v d = remove_loop 0 v d"

subsection \<open>Sequences of calls\<close>

text \<open>
  A caller's use of one object is a sequence of method calls; a call that raises leaves
  the object in the state the exception left it in, and the caller may go on using it.
\<close>

datatype 'a call =
    Append "'a option"
  | Insert int "'a option"
  | Remove "'a option"
  | Pop int
  | Get int
  | Set int "'a option"

fun exec :: "'a call \<Rightarrow> 'a DynamicArray \<Rightarrow> 'a DynamicArray" where
  "exec (Append v) d = snd (append_da v d)"
| "exec (Insert i v) d = snd (insert_da i v d)"
| "exec (Remove v) d = snd (remove_da v d)"
| "exec (Pop i) d = snd (pop i d)"
| "exec (Get i) d = snd (getitem i d)"
| "exec (Set i v) d = snd (setitem i v d)"

fun run :: "'a call list \<Rightarrow> 'a DynamicArray \<Rightarrow> 'a DynamicArray" where
  "run [] d = d"
| "run (c # cs) d = run cs (exec c d)"

text \<open>\<^verbatim>\<open>for v in vs: arr.append(v)\<close>, which stops at the first exception.\<close>

fun appends :: "'a option list \<Rightarrow> ('a, unit) da_method" where
  "appends [] d = (Inr (), d)"
| "appends (v # vs) d =
     (case append_da v d of
        (Inl e, d') \<Rightarrow> (Inl e, d')
      | (Inr u, d') \<Rightarrow> appends vs d')"

text \<open>
  The state invariant: the size is within the allocated list, and the list has as many
  slots as the capacity says (none when the capacity is negative); every recorded call of
  \<open>resize\<close> asked for at least the size.
\<close>

definition da_inv :: "'a DynamicArray \<Rightarrow> bool" where
  "da_inv d \<longleftrightarrow>
     0 \<le> size d \<and> size d \<le> int (length (array d)) \<and>
     length (array d) = nat (capacity d) \<and>
     list_all (\<lambda>(n, s). s \<le> n) (resize_calls d)"


text \<open>
  How one call may move the capacity: not at all, doubled by \<open>append\<close> or \<open>insert\<close> on a
  full array, or halved by \<open>pop\<close>.
\<close>

definition cap_step :: "'a DynamicArray \<Rightarrow> 'a DynamicArray \<Rightarrow> bool" where
  "cap_step d d' \<longleftrightarrow>
     capacity d' = capacity d \<or>
     capacity d' = 2 * capacity d \<and> 0 \<le> capacity d \<or>
     capacity d' = capacity d div 2 \<and> 4 \<le> capacity d"

text \<open>The index \<open>pop\<close> works with, after a negative argument has been resolved.\<close>

definition pop_index :: "int \<Rightarrow> 'a DynamicArray \<Rightarrow> int" where
  "pop_index i d = (if i < 0 then size d + i else i)"


section \<open>Sorting functions (algorithms/sorting.py)\<close>

text \<open>
  The functions compare list elements with Python's \<^verbatim>\<open><\<close>, \<^verbatim>\<open>>\<close>, \<^verbatim>\<open><=\<close> and \<^verbatim>\<open>==\<close>.
  On elements with a consistent total order these are the comparisons of a rank \<open>f x\<close> in
  a linear order: \<^verbatim>\<open>x < y\<close> is \<open>f x < f y\<close> and \<^verbatim>\<open>x == y\<close> is \<open>f x = f y\<close>. Every
  function takes \<open>f\<close> as its first argument. With \<open>f\<close> the identity the elements are
  linearly ordered values; any other \<open>f\<close> gives elements that compare equal without
  being the same, which is what stability is about.
\<close>

subsection \<open>bubble\_sort\<close>

text \<open>
  \<^verbatim>\<open>
  def bubble_sort(arr):
      n = len(arr)
      arr = arr.copy()
      for i in range(n):
          swapped = False
          for j in range(0, n - i - 1):
              if arr[j] > arr[j + 1]:
                  arr[j], arr[j + 1] = arr[j + 1], arr[j]
                  swapped = True
          if not swapped:
              break
      return arr
  \<close>
  \<open>bubble_inner f m j\<close> is the inner loop over \<open>range(0, m)\<close> from \<open>j\<close> on, \<open>bubble_outer\<close>
  the outer loop from \<open>i\<close> on. In the inner loop \<open>j < n - i - 1\<close>, so \<open>j + 1 < n\<close> and both
  accesses are within the list; \<open>i < n\<close> in the outer loop, so \<open>n - i - 1\<close> is not negative.
\<close>

function bubble_inner ::
  "('a \<Rightarrow> 'k::linorder) \<Rightarrow> nat \<Rightarrow> nat \<Rightarrow> 'a list \<Rightarrow> bool \<Rightarrow> 'a list \<times> bool" where
  "bubble_inner f m j arr swapped =
     (if j < m then
        (if f (arr ! j) > f (arr ! (j + 1))
         then bubble_inner f m (j + 1) (arr[j := arr ! (j + 1), j + 1 := arr ! j]) True
         else bubble_inner f m (j + 1) arr swapped)
      else (arr, swapped))"
  by pat_completeness auto
termination
  by (relation "measure (\<lambda>(f, m, j, arr, swapped). m - j)") auto

declare bubble_inner.simps [simp del]

function bubble_outer :: "('a \<Rightarrow> 'k::linorder) \<Rightarrow> nat \<Rightarrow> nat \<Rightarrow> 'a list \<Rightarrow> 'a list" where
  "bubble_outer f n i arr =
     (if i < n then
        (case bubble_inner f (n - i - 1) 0 arr False of
           (arr', swapped) \<Rightarrow>
             if \<not> swapped then arr' else bubble_outer f n (i + 1) arr')
      else arr)"
  by pat_completeness auto
termination
  by (relation "measure (\<lambda>(f, n, i, arr). n - i)") auto

declare bubble_outer.simps [simp del]

definition bubble_sort :: "('a \<Rightarrow> 'k::linorder) \<Rightarrow> 'a list \<Rightarrow> 'a list" where
  "bubble_sort f arr = bubble_outer f (length arr) 0 arr"

subsection \<open>insertion\_sort\<close>

text \<open>
  \<^verbatim>\<open>
  def insertion_sort(arr):
      arr = arr.copy()
      n = len(arr)
      for i in range(1, n):
          key = arr[i]
          j = i - 1
          while j >= 0 and arr[j] > key:
              arr[j + 1] = arr[j]
              j -= 1
          arr[j + 1] = key
      return arr
  \<close>
  \<open>j\<close> reaches \<open>-1\<close>, so it is an \<open>int\<close>; \<^verbatim>\<open>arr[j]\<close> is read only when \<open>0 \<le> j\<close>, and
  \<open>j + 1 \<le> i < n\<close>.
\<close>

function insertion_while ::
  "('a \<Rightarrow> 'k::linorder) \<Rightarrow> 'a \<Rightarrow> int \<Rightarrow> 'a list \<Rightarrow> 'a list \<times> int" where
  "insertion_while f key j arr =
     (if j \<ge> 0 \<and> f (arr ! nat j) > f key
      then insertion_while f key (j - 1) (arr[nat (j + 1) := arr ! nat j])
      else (arr, j))"
  by pat_completeness auto
termination
  by (relation "measure (\<lambda>(f, key, j, arr). nat (j + 1))") auto

declare insertion_while.simps [simp del]

function insertion_for :: "('a \<Rightarrow> 'k::linorder) \<Rightarrow> nat \<Rightarrow> nat \<Rightarrow> 'a list \<Rightarrow> 'a list" where
  "insertion_for f n i arr =
     (if i < n then
        (let key = arr ! i in
         case insertion_while f key (int i - 1) arr of
           (arr', j) \<Rightarrow> insertion_for f n (i + 1) (arr'[nat (j + 1) := key]))
      else arr)"
  by pat_completeness auto
termination
  by (relation "measure (\<lambda>(f, n, i, arr). n - i)") auto

declare insertion_for.simps [simp del]

definition insertion_sort :: "('a \<Rightarrow> 'k::linorder) \<Rightarrow> 'a list \<Rightarrow> 'a list" where
  "insertion_sort f arr = insertion_for f (length arr) 1 arr"

subsection \<open>merge\_sort\<close>

text \<open>
  \<^verbatim>\<open>
  def merge(left, right):
      result = []
      i = j = 0
      while i < len(left) and j < len(right):
          if left[i] <= right[j]:
              result.append(left[i])
              i += 1
          else:
              result.append(right[j])
              j += 1
      result.extend(left[i:])
      result.extend(right[j:])
      return result
  \<close>
\<close>

function merge_while ::
  "('a \<Rightarrow> 'k::linorder) \<Rightarrow> 'a list \<Rightarrow> 'a list \<Rightarrow> nat \<Rightarrow> nat \<Rightarrow> 'a list \<Rightarrow> 'a list \<times> nat \<times> nat" where
  "merge_while f left right i j result =
     (if i < length left \<and> j < length right then
        (if f (left ! i) \<le> f (right ! j)
         then merge_while f left right (i + 1) j (result @ [left ! i])
         else merge_while f left right i (j + 1) (result @ [right ! j]))
      else (result, i, j))"
  by pat_completeness auto
termination
  by (relation "measure (\<lambda>(f, left, right, i, j, result). (length left - i) + (length right - j))") auto

declare merge_while.simps [simp del]

definition merge :: "('a \<Rightarrow> 'k::linorder) \<Rightarrow> 'a list \<Rightarrow> 'a list \<Rightarrow> 'a list" where
  "merge f left right =
     (case merge_while f left right 0 0 [] of
        (result, i, j) \<Rightarrow> result @ drop i left @ drop j right)"

text \<open>
  \<^verbatim>\<open>
  def merge_sort(arr):
      if len(arr) <= 1:
          return arr
      mid = len(arr) // 2
      left = merge_sort(arr[:mid])
      right = merge_sort(arr[mid:])
      return merge(left, right)
  \<close>
\<close>

function merge_sort :: "('a \<Rightarrow> 'k::linorder) \<Rightarrow> 'a list \<Rightarrow> 'a list" where
  "merge_sort f arr =
     (if length arr \<le> 1 then arr
      else
        let mid = length arr div 2;
            left = merge_sort f (take mid arr);
            right = merge_sort f (drop mid arr)
        in merge f left right)"
  by pat_completeness auto
termination
  by (relation "measure (\<lambda>(f, arr). length arr)") auto

declare merge_sort.simps [simp del]

text \<open>
  What the loop of \<open>merge\<close> computes, as a recursion over what is left of both lists;
  the proofs go through it (\<open>merge_eq_rec\<close> below).
\<close>

fun merge_rec :: "('a \<Rightarrow> 'k::linorder) \<Rightarrow> 'a list \<Rightarrow> 'a list \<Rightarrow> 'a list" where
  "merge_rec f [] ys = ys"
| "merge_rec f xs [] = xs"
| "merge_rec f (x # xs) (y # ys) =
     (if f x \<le> f y then x # merge_rec f xs (y # ys) else y # merge_rec f (x # xs) ys)"

subsection \<open>quick\_sort\<close>

text \<open>
  \<^verbatim>\<open>
  def quick_sort(arr):
      if len(arr) <= 1:
          return arr
      pivot = sorted([arr[0], arr[len(arr)//2], arr[-1]])[1]
      left = [x for x in arr if x < pivot]
      middle = [x for x in arr if x == pivot]
      right = [x for x in arr if x > pivot]
      return quick_sort(left) + middle + quick_sort(right)
  \<close>
  Python's \<^verbatim>\<open>sorted\<close> is a stable sort, as \<open>sort_key\<close> is; on a non-empty list
  \<^verbatim>\<open>arr[-1]\<close> is the last element.
\<close>

definition median_of_three :: "('a \<Rightarrow> 'k::linorder) \<Rightarrow> 'a list \<Rightarrow> 'a" where
  "median_of_three f arr = sort_key f [arr ! 0, arr ! (length arr div 2), last arr] ! 1"

lemma median_of_three_in: "arr \<noteq> [] \<Longrightarrow> median_of_three f arr \<in> set arr"
proof -
  assume ne: "arr \<noteq> []"
  let ?l = "[arr ! 0, arr ! (length arr div 2), last arr]"
  have "length (sort_key f ?l) = 3" by simp
  then have "sort_key f ?l ! 1 \<in> set (sort_key f ?l)" by (intro nth_mem) simp
  then have "sort_key f ?l ! 1 \<in> set ?l" by (simp only: set_sort)
  moreover from ne have "set ?l \<subseteq> set arr" by (auto simp: hd_conv_nth[symmetric])
  ultimately show ?thesis unfolding median_of_three_def by blast
qed

lemma partition_shorter:
  assumes "\<not> length arr \<le> Suc 0"
  shows "length (filter (\<lambda>x. f x < f (median_of_three f arr)) arr) < length arr"
    and "length (filter (\<lambda>x. f (median_of_three f arr) < f x) arr) < length arr"
proof -
  from assms have "arr \<noteq> []" by auto
  then have "median_of_three f arr \<in> set arr" by (rule median_of_three_in)
  then show "length (filter (\<lambda>x. f x < f (median_of_three f arr)) arr) < length arr"
    and "length (filter (\<lambda>x. f (median_of_three f arr) < f x) arr) < length arr"
    by (auto intro: length_filter_less)
qed

function quick_sort :: "('a \<Rightarrow> 'k::linorder) \<Rightarrow> 'a list \<Rightarrow> 'a list" where
  "quick_sort f arr =
     (if length arr \<le> 1 then arr
      else
        let pivot = median_of_three f arr;
            left = filter (\<lambda>x. f x < f pivot) arr;
            middle = filter (\<lambda>x. f x = f pivot) arr;
            right = filter (\<lambda>x. f x > f pivot) arr
        in quick_sort f left @ middle @ quick_sort f right)"
  by pat_completeness auto
termination
  by (relation "measure (\<lambda>(f, arr). length arr)") (simp_all add: partition_shorter)

declare quick_sort.simps [simp del]

section \<open>Properties of two\_sum\<close>










section \<open>Properties of the resizable array\<close>

subsection \<open>List accesses and loops within bounds\<close>


lemma list_get_in: "0 \<le> i \<Longrightarrow> i < int (length xs) \<Longrightarrow> list_get xs i = Inr (xs ! nat i)"
  by (simp add: list_get_def list_index_def)

lemma list_set_in: "0 \<le> i \<Longrightarrow> i < int (length xs) \<Longrightarrow> list_set xs i v = Inr (xs[nat i := v])"
  by (simp add: list_set_def list_index_def)

lemma list_set_out: "0 \<le> i \<Longrightarrow> \<not> i < int (length xs) \<Longrightarrow> list_set xs i v = Inl IndexError"
  by (simp add: list_set_def list_index_def)

lemma list_set_length: "list_set xs i v = Inr ys \<Longrightarrow> length ys = length xs"
  by (auto simp: list_set_def split: option.splits)

lemma copy_loop_ok:
  "0 \<le> i \<Longrightarrow> n \<le> int (length src) \<Longrightarrow> n \<le> int (length dst) \<Longrightarrow>
   \<exists>r. copy_loop i n src dst = Inr r \<and> length r = length dst"
proof (induction i n src dst rule: copy_loop.induct)
  case (1 i n src new_array)
  show ?case
  proof (cases "i < n")
    case False
    then show ?thesis by (subst copy_loop.simps) simp
  next
    case True
    with 1(2-4) have g: "list_get src i = Inr (src ! nat i)"
      and s: "list_set new_array i (src ! nat i) = Inr (new_array[nat i := src ! nat i])"
      by (simp_all add: list_get_in list_set_in)
    from "1.IH"[OF True g s] 1(2-4)
    have "\<exists>r. copy_loop (i + 1) n src (new_array[nat i := src ! nat i]) = Inr r \<and>
        length r = length (new_array[nat i := src ! nat i])" by simp
    then show ?thesis using True g s by (subst copy_loop.simps) simp
  qed
qed

lemma shift_right_length: "length (snd (shift_right i index xs)) = length xs"
proof (induction i index xs rule: shift_right.induct)
  case (1 i index xs)
  show ?case
    by (subst shift_right.simps)
       (auto split: sum.splits simp: "1.IH" list_set_length)
qed

lemma shift_right_ok:
  "0 \<le> index \<Longrightarrow> i < int (length xs) \<Longrightarrow> fst (shift_right i index xs) = None"
proof (induction i index xs rule: shift_right.induct)
  case (1 i index xs)
  show ?case
  proof (cases "i > index")
    case False
    then show ?thesis by (subst shift_right.simps) simp
  next
    case True
    with 1(2,3) have g: "list_get xs (i - 1) = Inr (xs ! nat (i - 1))"
      and s: "list_set xs i (xs ! nat (i - 1)) = Inr (xs[nat i := xs ! nat (i - 1)])"
      by (simp_all add: list_get_in list_set_in)
    from "1.IH"[OF True g s] 1(2,3)
    have "fst (shift_right (i - 1) index (xs[nat i := xs ! nat (i - 1)])) = None" by simp
    then show ?thesis using True g s by (subst shift_right.simps) simp
  qed
qed

lemma shift_left_length: "length (snd (shift_left i n xs)) = length xs"
proof (induction i n xs rule: shift_left.induct)
  case (1 i n xs)
  show ?case
    by (subst shift_left.simps)
       (auto split: sum.splits simp: "1.IH" list_set_length)
qed

lemma shift_left_ok:
  "0 \<le> i \<Longrightarrow> n < int (length xs) \<Longrightarrow> fst (shift_left i n xs) = None"
proof (induction i n xs rule: shift_left.induct)
  case (1 i n xs)
  show ?case
  proof (cases "i < n")
    case False
    then show ?thesis by (subst shift_left.simps) simp
  next
    case True
    with 1(2,3) have g: "list_get xs (i + 1) = Inr (xs ! nat (i + 1))"
      and s: "list_set xs i (xs ! nat (i + 1)) = Inr (xs[nat i := xs ! nat (i + 1)])"
      by (simp_all add: list_get_in list_set_in)
    from "1.IH"[OF True g s] 1(2,3)
    have "fst (shift_left (i + 1) n (xs[nat i := xs ! nat (i + 1)])) = None" by simp
    then show ?thesis using True g s by (subst shift_left.simps) simp
  qed
qed

lemma resize_ok:
  assumes "da_inv d" and "size d \<le> n"
  shows "\<exists>a. resize n d = (Inr (), d\<lparr>resize_calls := resize_calls d @ [(n, size d)],
                                     array := a, capacity := n\<rparr>) \<and> length a = nat n"
proof -
  from assms have "0 \<le> (0::int)" "size d \<le> int (length (array d))"
    "size d \<le> int (length (replicate (nat n) (None :: 'a option)))"
    by (auto simp: da_inv_def)
  from copy_loop_ok[OF this] obtain r where
    r: "copy_loop 0 (size d) (array d) (replicate (nat n) None) = Inr r" "length r = nat n"
    by auto
  then show ?thesis by (intro exI[of _ r]) (simp add: resize_def)
qed

lemma resize_inv:
  assumes "da_inv d" and "size d \<le> n"
  shows "da_inv (snd (resize n d))" "fst (resize n d) = Inr ()"
    "capacity (snd (resize n d)) = n" "size (snd (resize n d)) = size d"
  using resize_ok[OF assms] assms by (auto simp: da_inv_def)

lemma append_inv:
  assumes "da_inv d"
  shows "da_inv (snd (append_da v d))"
proof -
  from assms have nn: "0 \<le> size d" by (simp add: da_inv_def)
  show ?thesis
  proof (cases "size d = capacity d")
    case True
    with assms have le: "size d \<le> 2 * capacity d" by (simp add: da_inv_def)
    define d1 where "d1 = d\<lparr>resize_calls := resize_calls d @ [(2 * capacity d, size d)]\<rparr>"
    from resize_ok[OF assms le] obtain a where
      r: "resize (2 * capacity d) d = (Inr (), d1\<lparr>array := a, capacity := 2 * capacity d\<rparr>)"
      and la: "length a = nat (2 * capacity d)"
      unfolding d1_def by blast
    show ?thesis
    proof (cases "size d < int (length a)")
      case lt: True
      from list_set_in[OF nn lt, of v] True r
      have "snd (append_da v d) = d1\<lparr>capacity := 2 * capacity d,
              array := a[nat (size d) := v], size := size d + 1\<rparr>"
        by (simp add: append_da_def d1_def)
      moreover from assms le lt la nn
      have "da_inv (d1\<lparr>capacity := 2 * capacity d,
              array := a[nat (size d) := v], size := size d + 1\<rparr>)"
        by (simp add: da_inv_def d1_def)
      ultimately show ?thesis by simp
    next
      case ge: False
      from list_set_out[OF nn ge, of v] True r
      have "snd (append_da v d) = d1\<lparr>array := a, capacity := 2 * capacity d\<rparr>"
        by (simp add: append_da_def d1_def)
      moreover from assms le la nn True
      have "da_inv (d1\<lparr>array := a, capacity := 2 * capacity d\<rparr>)"
        by (simp add: da_inv_def d1_def)
      ultimately show ?thesis by simp
    qed
  next
    case False
    show ?thesis
    proof (cases "size d < int (length (array d))")
      case lt: True
      from list_set_in[OF nn lt, of v] False
      have "snd (append_da v d) = d\<lparr>array := (array d)[nat (size d) := v], size := size d + 1\<rparr>"
        by (simp add: append_da_def)
      moreover from assms lt nn
      have "da_inv (d\<lparr>array := (array d)[nat (size d) := v], size := size d + 1\<rparr>)"
        by (simp add: da_inv_def)
      ultimately show ?thesis by simp
    next
      case ge: False
      from list_set_out[OF nn ge, of v] False
      have "snd (append_da v d) = d"
        by (simp add: append_da_def)
      with assms show ?thesis by simp
    qed
  qed
qed

lemma append_ok:
  assumes "da_inv d" and "1 \<le> capacity d"
  shows "\<exists>d'. append_da v d = (Inr (), d') \<and> size d' = size d + 1 \<and>
           capacity d' = (if size d = capacity d then 2 * capacity d else capacity d) \<and>
           array d' ! nat (size d) = v"
proof (cases "size d = capacity d")
  case True
  with assms have le: "size d \<le> 2 * capacity d" by (simp add: da_inv_def)
  from resize_ok[OF assms(1) le] obtain a where
    r: "resize (2 * capacity d) d = (Inr (), d\<lparr>resize_calls := resize_calls d @ [(2 * capacity d, size d)],
          array := a, capacity := 2 * capacity d\<rparr>)" and la: "length a = nat (2 * capacity d)"
    by blast
  from assms True la have "size d < int (length a)" "0 \<le> size d" by (simp_all add: da_inv_def)
  with True r show ?thesis
    by (simp add: append_da_def list_set_in)
next
  case False
  with assms have "size d < int (length (array d))" "0 \<le> size d" by (auto simp: da_inv_def)
  with False show ?thesis
    by (simp add: append_da_def list_set_in)
qed

lemma grow_cases:
  assumes "da_inv d"
  obtains (same) "size d \<noteq> capacity d"
      "(if size d = capacity d then resize (2 * capacity d) d else (Inr (), d)) = (Inr (), d)"
  | (grown) d1 where "size d = capacity d" "0 \<le> capacity d"
      "(if size d = capacity d then resize (2 * capacity d) d else (Inr (), d)) = (Inr (), d1)"
      "da_inv d1" "size d1 = size d" "capacity d1 = 2 * capacity d"
proof (cases "size d = capacity d")
  case False
  then show ?thesis by (intro same) simp_all
next
  case True
  with assms have nn: "0 \<le> capacity d" and le: "size d \<le> 2 * capacity d"
    by (simp_all add: da_inv_def)
  from resize_inv[OF assms le] obtain d1 where
    "resize (2 * capacity d) d = (Inr (), d1)" "da_inv d1" "size d1 = size d"
    "capacity d1 = 2 * capacity d"
    by (cases "resize (2 * capacity d) d") auto
  with True nn show ?thesis by (intro grown[of d1]) simp_all
qed

lemma append_cap:
  assumes "da_inv d"
  shows "cap_step d (snd (append_da v d))"
  using assms
proof (cases d rule: grow_cases)
  case same
  then show ?thesis by (auto simp: append_da_def cap_step_def split: sum.splits)
next
  case (grown d1)
  then show ?thesis by (auto simp: append_da_def cap_step_def split: sum.splits)
qed

lemma pop_err:
  "size d = 0 \<or> \<not> (0 \<le> pop_index i d \<and> pop_index i d < size d) \<Longrightarrow>
   pop i d = (Inl IndexError, d)"
  by (auto simp: pop_def pop_index_def Let_def)

lemma pop_ok:
  assumes inv: "da_inv d" and lo: "0 \<le> pop_index i d" and hi: "pop_index i d < size d"
  shows "fst (pop i d) = Inr (array d ! nat (pop_index i d))"
    and "size (snd (pop i d)) = size d - 1"
    and "da_inv (snd (pop i d))"
    and "capacity (snd (pop i d)) = capacity d \<or>
         capacity (snd (pop i d)) = capacity d div 2 \<and> 4 \<le> capacity d"
proof -
  let ?k = "pop_index i d"
  from inv have len: "size d \<le> int (length (array d))"
    unfolding da_inv_def by blast
  from hi lo have sz: "size d \<noteq> 0" "0 < size d" by linarith+
  from lo hi len have g: "list_get (array d) ?k = Inr (array d ! nat ?k)"
    by (simp add: list_get_in)
  obtain e a where sl: "shift_left ?k (size d - 1) (array d) = (e, a)" by (cases "shift_left ?k (size d - 1) (array d)")
  from shift_left_ok[OF lo, of "size d - 1" "array d"] len sl have e: "e = None" by simp
  from shift_left_length[of ?k "size d - 1" "array d"] sl have la: "length a = length (array d)" by simp
  from sz len la have ls: "list_set a (size d - 1) None = Inr (a[nat (size d - 1) := None])"
    by (simp add: list_set_in)
  define d1 where "d1 = d\<lparr>array := a[nat (size d - 1) := None], size := size d - 1\<rparr>"
  from inv la sz have inv1: "da_inv d1" by (auto simp: da_inv_def d1_def)
  have p: "pop i d = (if size d1 > 0 \<and> size d1 = capacity d1 div 4 then
                           (case resize (capacity d1 div 2) d1 of
                              (Inl e, d2) \<Rightarrow> (Inl e, d2)
                            | (Inr u, d2) \<Rightarrow> (Inr (array d ! nat ?k), d2))
                         else (Inr (array d ! nat ?k), d1))"
    using sz lo hi g sl e ls unfolding pop_def pop_index_def[symmetric] d1_def Let_def
    by simp
  have res: "\<exists>d'. pop i d = (Inr (array d ! nat ?k), d') \<and> size d' = size d - 1 \<and> da_inv d' \<and>
      (capacity d' = capacity d \<or> capacity d' = capacity d div 2 \<and> 4 \<le> capacity d)"
  proof (cases "size d1 > 0 \<and> size d1 = capacity d1 div 4")
    case False
    with p have "pop i d = (Inr (array d ! nat ?k), d1)" by simp
    with inv1 show ?thesis by (simp add: d1_def)
  next
    case True
    then have c4: "4 \<le> capacity d1" and le: "size d1 \<le> capacity d1 div 2" by linarith+
    from resize_inv[OF inv1 le] obtain d2 where
      r: "resize (capacity d1 div 2) d1 = (Inr (), d2)" and inv2: "da_inv d2"
      and c2: "capacity d2 = capacity d1 div 2" and s2: "size d2 = size d1"
      by (cases "resize (capacity d1 div 2) d1") auto
    from p True r have "pop i d = (Inr (array d ! nat ?k), d2)" by simp
    with inv2 c2 s2 c4 show ?thesis by (simp add: d1_def)
  qed
  then show "fst (pop i d) = Inr (array d ! nat ?k)"
    and "size (snd (pop i d)) = size d - 1"
    and "da_inv (snd (pop i d))"
    and "capacity (snd (pop i d)) = capacity d \<or>
         capacity (snd (pop i d)) = capacity d div 2 \<and> 4 \<le> capacity d"
    by auto
qed


lemma pop_inv:
  assumes "da_inv d"
  shows "da_inv (snd (pop i d))" and "cap_step d (snd (pop i d))"
proof -
  have "da_inv (snd (pop i d)) \<and> cap_step d (snd (pop i d))"
  proof (cases "size d = 0 \<or> \<not> (0 \<le> pop_index i d \<and> pop_index i d < size d)")
    case True
    from pop_err[OF True] assms show ?thesis by (simp add: cap_step_def)
  next
    case False
    then have "0 \<le> pop_index i d" "pop_index i d < size d" by auto
    from pop_ok(3,4)[OF assms this] show ?thesis by (auto simp: cap_step_def)
  qed
  then show "da_inv (snd (pop i d))" and "cap_step d (snd (pop i d))" by blast+
qed

lemma getitem_inv: "da_inv d \<Longrightarrow> da_inv (snd (getitem i d))"
  "cap_step d (snd (getitem i d))"
  by (auto simp: getitem_def cap_step_def split: sum.splits)

lemma setitem_inv: "da_inv d \<Longrightarrow> da_inv (snd (setitem i v d))"
  "cap_step d (snd (setitem i v d))"
  by (auto simp: setitem_def cap_step_def da_inv_def split: sum.splits dest: list_set_length)

lemma remove_loop_inv:
  "da_inv d \<Longrightarrow> da_inv (snd (remove_loop i v d)) \<and> cap_step d (snd (remove_loop i v d))"
proof (induction i v d rule: remove_loop.induct)
  case (1 i v d)
  show ?case
  proof (cases "i < size d")
    case False
    with 1(2) show ?thesis by (subst (1 2) remove_loop.simps) (simp add: cap_step_def)
  next
    case True
    show ?thesis
    proof (cases "list_get (array d) i")
      case (Inl e)
      with True 1(2) show ?thesis by (subst (1 2) remove_loop.simps) (simp add: cap_step_def)
    next
      case (Inr x)
      show ?thesis
      proof (cases "x = v")
        case eq: True
        from pop_inv[OF 1(2), of i] True Inr eq show ?thesis
          by (subst (1 2) remove_loop.simps) (auto split: prod.splits sum.splits)
      next
        case ne: False
        from "1.IH"[OF True Inr ne 1(2)] True Inr ne show ?thesis
          by (subst (1 2) remove_loop.simps) simp
      qed
    qed
  qed
qed

lemma shift_right_None_bound:
  "index < i \<Longrightarrow> 0 \<le> i \<Longrightarrow> fst (shift_right i index xs) = None \<Longrightarrow> i < int (length xs)"
  by (subst (asm) shift_right.simps)
     (auto split: sum.splits option.splits if_splits simp: list_set_def list_index_def)

lemma list_set_Inr_bound: "0 \<le> i \<Longrightarrow> list_set xs i v = Inr ys \<Longrightarrow> i < int (length xs)"
  by (auto simp: list_set_def list_index_def split: option.splits if_splits)

lemma insert_inv:
  assumes "da_inv d"
  shows "da_inv (snd (insert_da i v d))" and "cap_step d (snd (insert_da i v d))"
proof -
  have "da_inv (snd (insert_da i v d)) \<and> cap_step d (snd (insert_da i v d))"
  proof (cases "0 \<le> i \<and> i \<le> size d")
    case False
    with assms show ?thesis by (simp add: insert_da_def cap_step_def)
  next
    case True
    have body: "da_inv (snd (case shift_right (size d1) i (array d1) of
               (Some e, a) \<Rightarrow> (Inl e, d1\<lparr>array := a\<rparr>)
             | (None, a) \<Rightarrow>
                 (case list_set a i v of
                    Inl e \<Rightarrow> (Inl e, d1\<lparr>array := a\<rparr>)
                  | Inr a' \<Rightarrow> (Inr (), d1\<lparr>array := a', size := size d1 + 1\<rparr>)))) \<and>
          capacity (snd (case shift_right (size d1) i (array d1) of
               (Some e, a) \<Rightarrow> (Inl e, d1\<lparr>array := a\<rparr>)
             | (None, a) \<Rightarrow>
                 (case list_set a i v of
                    Inl e \<Rightarrow> (Inl e, d1\<lparr>array := a\<rparr>)
                  | Inr a' \<Rightarrow> (Inr (), d1\<lparr>array := a', size := size d1 + 1\<rparr>)))) = capacity d1"
      if inv1: "da_inv d1" and s1: "i \<le> size d1" for d1 :: "'a DynamicArray"
    proof -
      obtain e a where sr: "shift_right (size d1) i (array d1) = (e, a)"
        by (cases "shift_right (size d1) i (array d1)")
      from shift_right_length[of "size d1" i "array d1"] sr
      have la: "length a = length (array d1)" by simp
      from inv1 la have inva: "da_inv (d1\<lparr>array := a\<rparr>)" by (auto simp: da_inv_def)
      show ?thesis
      proof (cases e)
        case (Some err)
        with sr inva show ?thesis by simp
      next
        case None
        show ?thesis
        proof (cases "list_set a i v")
          case (Inl err)
          with sr None inva show ?thesis by simp
        next
          case (Inr a')
          from list_set_length[OF Inr] la have la': "length a' = length (array d1)" by simp
          have "size d1 < int (length (array d1))"
          proof (cases "i < size d1")
            case lt: True
            from inv1 have "0 \<le> size d1" by (simp add: da_inv_def)
            from shift_right_None_bound[OF lt this, of "array d1"] sr None show ?thesis by simp
          next
            case eq: False
            with s1 have "i = size d1" by simp
            with list_set_Inr_bound[OF _ Inr] True la show ?thesis by simp
          qed
          with inv1 la' have "da_inv (d1\<lparr>array := a', size := size d1 + 1\<rparr>)"
            by (auto simp: da_inv_def)
          with sr None Inr show ?thesis by simp
        qed
      qed
    qed
    from assms show ?thesis
    proof (cases d rule: grow_cases)
      case same
      from body[OF assms] True same show ?thesis
        by (simp add: insert_da_def cap_step_def)
    next
      case (grown d1)
      from body[OF grown(4)] True grown show ?thesis
        by (simp add: insert_da_def cap_step_def)
    qed
  qed
  then show "da_inv (snd (insert_da i v d))" and "cap_step d (snd (insert_da i v d))" by blast+
qed

subsection \<open>The invariant over sequences of calls\<close>

lemma init_inv: "da_inv (init c)"
  by (simp add: da_inv_def init_def)

lemma remove_inv:
  "da_inv d \<Longrightarrow> da_inv (snd (remove_da v d))" "da_inv d \<Longrightarrow> cap_step d (snd (remove_da v d))"
  using remove_loop_inv[of d 0 v] by (simp_all add: remove_da_def)

lemma exec_inv:
  assumes "da_inv d"
  shows "da_inv (exec c d)" and "cap_step d (exec c d)"
  using assms
  by (cases c; simp add: append_inv append_cap insert_inv remove_inv pop_inv getitem_inv setitem_inv)+

lemma cap_step_lower:
  "cap_step d d' \<Longrightarrow> 0 \<le> k \<Longrightarrow> k \<le> 1 \<Longrightarrow> k \<le> capacity d \<Longrightarrow> k \<le> capacity d'"
  by (auto simp: cap_step_def)

lemma run_inv:
  "da_inv d \<Longrightarrow> da_inv (run cs d)"
  by (induction cs arbitrary: d) (simp_all add: exec_inv)

lemma run_cap_lower:
  "da_inv d \<Longrightarrow> 0 \<le> k \<Longrightarrow> k \<le> 1 \<Longrightarrow> k \<le> capacity d \<Longrightarrow> k \<le> capacity (run cs d)"
proof (induction cs arbitrary: d)
  case Nil
  then show ?case by simp
next
  case (Cons c cs)
  from exec_inv[OF Cons.prems(1), of c] Cons.prems
  have "da_inv (exec c d)" "k \<le> capacity (exec c d)"
    by (auto intro: cap_step_lower)
  from Cons.IH[OF this(1) Cons.prems(2,3) this(2)] show ?case by simp
qed

lemma da_inv_size_le_capacity: "da_inv d \<Longrightarrow> 0 \<le> capacity d \<Longrightarrow> size d \<le> capacity d"
  by (auto simp: da_inv_def)




text \<open>
  Claim C5, as stated, has the constructor reject or clamp a requested capacity below
  \<open>1\<close>. The constructor has no check: \<^verbatim>\<open>DynamicArray(0)\<close> has capacity \<open>0\<close> and
  \<^verbatim>\<open>DynamicArray(-3)\<close> has capacity \<open>-3\<close>.
\<close>

theorem init_capacity_counterexample:
  "capacity (init 0 :: int DynamicArray) = 0 \<and> capacity (init (- 3) :: int DynamicArray) = - 3"
  by (simp add: init_def)

text \<open>
  Claim C5, amended: the constructor stores the requested capacity unchanged, whatever
  its sign, and produces an empty array: size \<open>0\<close> and \<open>max(capacity, 0)\<close> slots that
  all hold \<^verbatim>\<open>None\<close>. The capacity of the new array is at least \<open>1\<close> exactly when the
  caller asked for at least \<open>1\<close>.
\<close>

theorem init_stores_capacity:
  "capacity (init c) = c \<and> size (init c) = 0 \<and> len (init c) = 0 \<and>
   array (init c) = replicate (nat c) None \<and>
   list_all (\<lambda>x. x = None) (array (init c)) \<and>
   (1 \<le> capacity (init c) \<longleftrightarrow> 1 \<le> c)"
  by (simp add: init_def len_def list_all_iff)

subsection \<open>Growth under append\<close>

lemma appends_grow:
  assumes "1 \<le> c"
  shows "da_inv d \<Longrightarrow> capacity d = c * 2 ^ m \<Longrightarrow> (\<forall>j. m = Suc j \<longrightarrow> c * 2 ^ j < size d) \<Longrightarrow>
    \<exists>d' m'. appends vs d = (Inr (), d') \<and> size d' = size d + int (length vs) \<and>
       capacity d' = c * 2 ^ m' \<and> size d' \<le> c * 2 ^ m' \<and>
       (\<forall>j. m' = Suc j \<longrightarrow> c * 2 ^ j < size d')"
proof (induction vs arbitrary: d m)
  case Nil
  from Nil(1) have "0 \<le> capacity d \<Longrightarrow> size d \<le> capacity d" by (rule da_inv_size_le_capacity)
  moreover from assms Nil(2) have "0 \<le> capacity d" by simp
  ultimately show ?case using Nil by auto
next
  case (Cons v vs)
  from assms have "1 * 1 \<le> c * 2 ^ m" by (intro mult_mono) simp_all
  with Cons.prems(2) have c1: "1 \<le> capacity d" by simp
  from append_ok[OF Cons.prems(1) c1, of v] obtain d1 where
    a: "append_da v d = (Inr (), d1)" and s1: "size d1 = size d + 1"
    and cap1: "capacity d1 = (if size d = capacity d then 2 * capacity d else capacity d)"
    by blast
  from append_inv[OF Cons.prems(1), of v] a have inv1: "da_inv d1" by simp
  have "\<exists>m1. capacity d1 = c * 2 ^ m1 \<and> (\<forall>j. m1 = Suc j \<longrightarrow> c * 2 ^ j < size d1)"
  proof (cases "size d = capacity d")
    case True
    with cap1 Cons.prems(2) s1 have "capacity d1 = c * 2 ^ Suc m"
      "\<forall>j. Suc m = Suc j \<longrightarrow> c * 2 ^ j < size d1" by simp_all
    then show ?thesis by blast
  next
    case False
    with cap1 Cons.prems(2,3) s1 have "capacity d1 = c * 2 ^ m"
      "\<forall>j. m = Suc j \<longrightarrow> c * 2 ^ j < size d1" by auto
    then show ?thesis by blast
  qed
  then obtain m1 where "capacity d1 = c * 2 ^ m1" "\<forall>j. m1 = Suc j \<longrightarrow> c * 2 ^ j < size d1"
    by blast
  from Cons.IH[OF inv1 this] obtain d' m' where
    "appends vs d1 = (Inr (), d')" "size d' = size d1 + int (length vs)"
    "capacity d' = c * 2 ^ m'" "size d' \<le> c * 2 ^ m'" "\<forall>j. m' = Suc j \<longrightarrow> c * 2 ^ j < size d'"
    by blast
  with a s1 show ?case by auto
qed

lemma least_doubling:
  assumes c: "1 \<le> (c::int)" and least: "\<forall>j. m = Suc j \<longrightarrow> c * 2 ^ j < k" and le: "k \<le> c * 2 ^ m'"
  shows "m \<le> m'"
proof (rule ccontr)
  assume "\<not> m \<le> m'"
  then obtain j where j: "m = Suc j" and "m' \<le> j" by (cases m) auto
  then have "(2::int) ^ m' \<le> 2 ^ j" by (simp add: power_increasing)
  with c have "c * 2 ^ m' \<le> c * 2 ^ j" by (simp add: mult_left_mono)
  with least j le show False by force
qed

text \<open>
  Claim C2: for every initial capacity \<open>c \<ge> 1\<close> and every sequence of \<open>k\<close> append calls
  on a freshly constructed array, every call returns, afterwards \<open>length() = k\<close>, and the
  capacity is \<open>c * 2^m\<close> for the least \<open>m\<close> with \<open>k \<le> c * 2^m\<close>.
\<close>

theorem appends_length_capacity:
  assumes "1 \<le> c"
  shows "\<exists>d m. appends vs (init c) = (Inr (), d) \<and> len d = int (length vs) \<and>
           capacity d = c * 2 ^ m \<and> int (length vs) \<le> c * 2 ^ m \<and>
           (\<forall>m'. int (length vs) \<le> c * 2 ^ m' \<longrightarrow> m \<le> m')"
proof -
  have "capacity (init c :: 'a DynamicArray) = c * 2 ^ 0"
    "\<forall>j. (0::nat) = Suc j \<longrightarrow> c * 2 ^ j < size (init c :: 'a DynamicArray)"
    by (simp_all add: init_def)
  moreover have s0: "size (init c :: 'a DynamicArray) = 0" by (simp add: init_def)
  ultimately have "\<exists>d m. appends vs (init c) = (Inr (), d) \<and> size d = int (length vs) \<and>
    capacity d = c * 2 ^ m \<and> size d \<le> c * 2 ^ m \<and> (\<forall>j. m = Suc j \<longrightarrow> c * 2 ^ j < size d)"
    using appends_grow[OF assms init_inv[of c], where m = 0 and vs = vs] by simp
  then obtain d m where
    r: "appends vs (init c) = (Inr (), d)" "size d = int (length vs)"
    "capacity d = c * 2 ^ m" "size d \<le> c * 2 ^ m" "\<forall>j. m = Suc j \<longrightarrow> c * 2 ^ j < size d"
    by blast
  from least_doubling[OF assms r(5)] have "\<forall>m'. int (length vs) \<le> c * 2 ^ m' \<longrightarrow> m \<le> m'"
    using r(2) by simp
  with r show ?thesis by (auto simp: len_def)
qed

theorem appends_length_capacity_witness:
  "(1 :: int) \<le> 2 \<and>
   (\<exists>d. appends [Some 1, Some 2, Some (3 :: int)] (init 2) = (Inr (), d) \<and> len d = 3 \<and> capacity d = 4)"
proof -
  from appends_length_capacity[of 2 "[Some 1, Some 2, Some (3 :: int)]"]
  obtain d m where d: "appends [Some 1, Some 2, Some (3 :: int)] (init 2) = (Inr (), d)"
    "len d = int (length [Some 1, Some 2, Some (3 :: int)])" "capacity d = 2 * 2 ^ m"
    "int (length [Some 1, Some 2, Some (3 :: int)]) \<le> 2 * 2 ^ m"
    "\<forall>m'. int (length [Some 1, Some 2, Some (3 :: int)]) \<le> 2 * 2 ^ m' \<longrightarrow> m \<le> m'"
    by auto
  from d(5) have "m \<le> 1" by simp
  moreover from d(4) have "m \<noteq> 0" by (intro notI) simp
  ultimately have "m = 1" by simp
  with d show ?thesis by simp
qed

subsection \<open>Rejected calls\<close>

lemma remove_loop_absent:
  "0 \<le> i \<Longrightarrow> size d \<le> int (length (array d)) \<Longrightarrow>
   (\<forall>k. i \<le> k \<and> k < size d \<longrightarrow> array d ! nat k \<noteq> v) \<Longrightarrow>
   remove_loop i v d = (Inl ValueError, d)"
proof (induction i v d rule: remove_loop.induct)
  case (1 i v d)
  show ?case
  proof (cases "i < size d")
    case False
    then show ?thesis by (subst remove_loop.simps) simp
  next
    case True
    with 1(2,3) have g: "list_get (array d) i = Inr (array d ! nat i)"
      by (simp add: list_get_in)
    from 1(4) True have ne: "array d ! nat i \<noteq> v" by simp
    from 1(2,4) have "0 \<le> i + 1" "\<forall>k. i + 1 \<le> k \<and> k < size d \<longrightarrow> array d ! nat k \<noteq> v"
      by auto
    from "1.IH"[OF True g ne this(1) 1(3) this(2)] True g ne show ?thesis
      by (subst remove_loop.simps) simp
  qed
qed

text \<open>
  Claim C4: in every state \<open>d\<close> an array can be in (any constructor argument, any
  sequence of calls), a call of get, set, insert or pop with an index outside the valid
  range raises IndexError and leaves the object exactly as it was (size, capacity, every
  slot, and no resize); \<open>remove\<close> of a value that no stored element equals raises
  ValueError and leaves the object as it was.
\<close>

theorem rejected_call_leaves_state:
  assumes "d = run cs (init c)"
  shows "(\<not> (0 \<le> i \<and> i < size d) \<longrightarrow> getitem i d = (Inl IndexError, d)) \<and>
         (\<not> (0 \<le> i \<and> i < size d) \<longrightarrow> setitem i v d = (Inl IndexError, d)) \<and>
         (\<not> (0 \<le> i \<and> i \<le> size d) \<longrightarrow> insert_da i v d = (Inl IndexError, d)) \<and>
         (size d = 0 \<or> \<not> (0 \<le> pop_index i d \<and> pop_index i d < size d) \<longrightarrow>
            pop i d = (Inl IndexError, d)) \<and>
         ((\<forall>k. 0 \<le> k \<and> k < size d \<longrightarrow> array d ! nat k \<noteq> v) \<longrightarrow>
            remove_da v d = (Inl ValueError, d))"
proof -
  from assms have "da_inv d" by (simp add: run_inv init_inv)
  then have "size d \<le> int (length (array d))" unfolding da_inv_def by blast
  from remove_loop_absent[OF _ this, of 0 v]
  have "(\<forall>k. 0 \<le> k \<and> k < size d \<longrightarrow> array d ! nat k \<noteq> v) \<longrightarrow>
            remove_da v d = (Inl ValueError, d)" by (simp add: remove_da_def)
  moreover have "size d = 0 \<or> \<not> (0 \<le> pop_index i d \<and> pop_index i d < size d) \<longrightarrow>
            pop i d = (Inl IndexError, d)" using pop_err[of d i] by blast
  ultimately show ?thesis by (simp add: getitem_def setitem_def insert_da_def)
qed

theorem rejected_call_leaves_state_witness:
  "getitem 3 (run [Append (Some 1), Append (Some 2), Append (Some 3)] (init 2 :: int DynamicArray))
     = (Inl IndexError, run [Append (Some 1), Append (Some 2), Append (Some 3)] (init 2)) \<and>
   setitem (- 1) (Some 9) (run [Append (Some 1), Append (Some 2), Append (Some 3)] (init 2 :: int DynamicArray))
     = (Inl IndexError, run [Append (Some 1), Append (Some 2), Append (Some 3)] (init 2)) \<and>
   insert_da 4 (Some 9) (run [Append (Some 1), Append (Some 2), Append (Some 3)] (init 2 :: int DynamicArray))
     = (Inl IndexError, run [Append (Some 1), Append (Some 2), Append (Some 3)] (init 2)) \<and>
   pop (- 4) (run [Append (Some 1), Append (Some 2), Append (Some 3)] (init 2 :: int DynamicArray))
     = (Inl IndexError, run [Append (Some 1), Append (Some 2), Append (Some 3)] (init 2)) \<and>
   remove_da (Some 9) (run [Append (Some 1), Append (Some 2), Append (Some 3)] (init 2 :: int DynamicArray))
     = (Inl ValueError, run [Append (Some 1), Append (Some 2), Append (Some 3)] (init 2))"
proof -
  let ?d = "run [Append (Some 1), Append (Some 2), Append (Some 3)] (init 2 :: int DynamicArray)"
  have d: "?d = \<lparr>capacity = 4, size = 3, array = [Some 1, Some 2, Some 3, None],
                  resize_calls = [(4, 2)]\<rparr>" by code_simp
  have ab: "\<forall>k. 0 \<le> k \<and> k < size ?d \<longrightarrow> array ?d ! nat k \<noteq> Some 9"
  proof (intro allI impI)
    fix k :: int assume "0 \<le> k \<and> k < size ?d"
    then have "k = 0 \<or> k = 1 \<or> k = 2" unfolding d by auto
    then show "array ?d ! nat k \<noteq> Some 9" unfolding d by auto
  qed
  have s: "size ?d = 3" unfolding d by simp
  note th = rejected_call_leaves_state[OF refl,
      where cs = "[Append (Some 1), Append (Some 2), Append (Some (3::int))]" and c = 2]
  from th[where i = 3]
  have "getitem 3 ?d = (Inl IndexError, ?d)" unfolding s by simp
  moreover
  from th[where i = "- 1" and v = "Some 9"]
  have "setitem (- 1) (Some 9) ?d = (Inl IndexError, ?d)" unfolding s by simp
  moreover
  from th[where i = 4 and v = "Some 9"]
  have "insert_da 4 (Some 9) ?d = (Inl IndexError, ?d)" unfolding s by simp
  moreover
  have "pop_index (- 4) ?d = - 1" unfolding pop_index_def s by simp
  with th[where i = "- 4"]
  have "pop (- 4) ?d = (Inl IndexError, ?d)" unfolding s by simp
  moreover
  from th[where v = "Some 9"] ab
  have "remove_da (Some 9) ?d = (Inl ValueError, ?d)" by blast
  ultimately show ?thesis by blast
qed

subsection \<open>Append, then pop\<close>

text \<open>
  Claim C6, as stated, is about every array. \<^verbatim>\<open>DynamicArray(0)\<close> is an array the
  constructor builds; on it \<open>append\<close> doubles the capacity \<open>0\<close> to \<open>0\<close> and the write into
  slot \<open>0\<close> raises IndexError, and the \<open>pop\<close> that follows raises on the still empty array.
\<close>

theorem append_pop_zero_capacity_counterexample:
  "fst (append_da (Some 1) (init 0 :: int DynamicArray)) = Inl IndexError \<and>
   fst (pop (- 1) (snd (append_da (Some 1) (init 0 :: int DynamicArray)))) = Inl IndexError"
  by code_simp

text \<open>
  Claim C6, amended: for every array constructed with a capacity \<open>c \<ge> 1\<close>, in any state
  a sequence of calls has brought it to, and every value \<open>v\<close>: \<open>append(v)\<close> returns, the
  \<open>pop()\<close> with the default index that follows returns \<open>v\<close>, and \<open>length()\<close> is what it
  was before the append.
\<close>

theorem append_pop_round_trip:
  assumes "1 \<le> c" and "d = run cs (init c)"
  shows "\<exists>d1 d2. append_da v d = (Inr (), d1) \<and> pop (- 1) d1 = (Inr v, d2) \<and> len d2 = len d"
proof -
  from assms(2) have inv: "da_inv d" by (simp add: run_inv init_inv)
  from assms(1) have "1 \<le> capacity (init c :: 'a DynamicArray)" by (simp add: init_def)
  from run_cap_lower[OF init_inv _ _ this, where cs = cs] assms(2)
  have cap: "1 \<le> capacity d" by simp
  from append_ok[OF inv cap, of v] obtain d1 where
    a: "append_da v d = (Inr (), d1)" and s1: "size d1 = size d + 1"
    and v: "array d1 ! nat (size d) = v" by blast
  from append_inv[OF inv, of v] a have inv1: "da_inv d1" by simp
  from inv have nn: "0 \<le> size d" unfolding da_inv_def by blast
  have k: "pop_index (- 1) d1 = size d" by (simp add: pop_index_def s1)
  from nn k have lo: "0 \<le> pop_index (- 1) d1" by simp
  from k s1 have hi: "pop_index (- 1) d1 < size d1" by simp
  from pop_ok(1,2)[OF inv1 lo hi] k v s1
  have "fst (pop (- 1) d1) = Inr v" "size (snd (pop (- 1) d1)) = size d" by simp_all
  then have "pop (- 1) d1 = (Inr v, snd (pop (- 1) d1)) \<and> len (snd (pop (- 1) d1)) = len d"
    by (simp add: len_def prod_eq_iff)
  with a show ?thesis by blast
qed

theorem append_pop_round_trip_witness:
  "(1 :: int) \<le> 2 \<and>
   (\<exists>d1 d2. append_da (Some 7) (run [Append (Some 1), Append (Some 2)] (init 2 :: int DynamicArray))
               = (Inr (), d1) \<and>
            pop (- 1) d1 = (Inr (Some 7), d2) \<and>
            len d2 = len (run [Append (Some 1), Append (Some 2)] (init 2 :: int DynamicArray)))"
  using append_pop_round_trip[OF _ refl, where c = 2 and cs = "[Append (Some 1), Append (Some (2::int))]"
      and v = "Some 7"]
  by simp

section \<open>Properties of the sorting functions\<close>

subsection \<open>quick\_sort\<close>

lemma mset_three_way:
  fixes f :: "'a \<Rightarrow> 'k::linorder"
  shows "mset (filter (\<lambda>x. f x < p) xs) + mset (filter (\<lambda>x. f x = p) xs) +
         mset (filter (\<lambda>x. p < f x) xs) = mset xs"
  by (induction xs) auto

lemma mset_quick_sort: "mset (quick_sort f arr) = mset arr"
proof (induction f arr rule: quick_sort.induct)
  case (1 f arr)
  show ?case
  proof (cases "length arr \<le> 1")
    case True
    then show ?thesis by (subst quick_sort.simps) simp
  next
    case False
    let ?p = "median_of_three f arr"
    from "1.IH"(1)[OF False refl refl refl refl]
    have l: "mset (quick_sort f (filter (\<lambda>x. f x < f ?p) arr)) = mset (filter (\<lambda>x. f x < f ?p) arr)" .
    from "1.IH"(2)[OF False refl refl refl refl]
    have r: "mset (quick_sort f (filter (\<lambda>x. f ?p < f x) arr)) = mset (filter (\<lambda>x. f ?p < f x) arr)" .
    from False have "quick_sort f arr = quick_sort f (filter (\<lambda>x. f x < f ?p) arr) @
        filter (\<lambda>x. f x = f ?p) arr @ quick_sort f (filter (\<lambda>x. f ?p < f x) arr)"
      by (subst quick_sort.simps) (simp add: Let_def)
    then show ?thesis using l r mset_three_way[of f "f ?p" arr]
      by (simp add: ac_simps)
  qed
qed

lemma set_quick_sort: "set (quick_sort f arr) = set arr"
  using mset_quick_sort[of f arr] by (metis set_mset_mset)

lemma sorted_equal_keys: "sorted (map f (filter (\<lambda>x. f x = k) xs))"
  by (induction xs) auto

lemma sorted_quick_sort: "sorted (map f (quick_sort f arr))"
proof (induction f arr rule: quick_sort.induct)
  case (1 f arr)
  show ?case
  proof (cases "length arr \<le> 1")
    case True
    then have "arr = [] \<or> (\<exists>x. arr = [x])" by (cases arr) auto
    then show ?thesis by (subst quick_sort.simps) auto
  next
    case False
    let ?p = "median_of_three f arr"
    from "1.IH"(1)[OF False refl refl refl refl]
    have l: "sorted (map f (quick_sort f (filter (\<lambda>x. f x < f ?p) arr)))" .
    from "1.IH"(2)[OF False refl refl refl refl]
    have r: "sorted (map f (quick_sort f (filter (\<lambda>x. f ?p < f x) arr)))" .
    have m: "sorted (map f (filter (\<lambda>x. f x = f ?p) arr))"
      by (rule sorted_equal_keys)
    from False have "quick_sort f arr = quick_sort f (filter (\<lambda>x. f x < f ?p) arr) @
        filter (\<lambda>x. f x = f ?p) arr @ quick_sort f (filter (\<lambda>x. f ?p < f x) arr)"
      by (subst quick_sort.simps) (simp add: Let_def)
    then show ?thesis using l r m
      by (auto simp: sorted_append set_quick_sort)
  qed
qed

text \<open>
  Claim C10: \<open>quick_sort\<close> terminates on every list. The recursion of the definition
  above is accepted with the length of the list as measure, and every input is in the
  domain of the recursion. The reason is the one the claim gives: on a list of more than
  one element the median-of-three pivot is an element of the list, so the equal
  partition is not empty and both recursive calls get strictly shorter lists.
\<close>

theorem quick_sort_terminates:
  "quick_sort_dom (f, arr) \<and>
   (1 < length arr \<longrightarrow>
      median_of_three f arr \<in> set arr \<and>
      filter (\<lambda>x. f x = f (median_of_three f arr)) arr \<noteq> [] \<and>
      length (filter (\<lambda>x. f x < f (median_of_three f arr)) arr) < length arr \<and>
      length (filter (\<lambda>x. f x > f (median_of_three f arr)) arr) < length arr)"
proof (intro conjI impI)
  have "\<forall>x :: ('a \<Rightarrow> 'b) \<times> 'a list. quick_sort_dom x"
    by (rule "quick_sort.termination"[of "measure (\<lambda>(f, arr). length arr)"])
       (simp_all add: partition_shorter)
  then show "quick_sort_dom (f, arr)" by blast
next
  assume a: "1 < length arr"
  then have ne: "arr \<noteq> []" by auto
  then show in_set: "median_of_three f arr \<in> set arr" by (rule median_of_three_in)
  then show "filter (\<lambda>x. f x = f (median_of_three f arr)) arr \<noteq> []"
    by (auto simp: filter_empty_conv)
  from a show "length (filter (\<lambda>x. f x < f (median_of_three f arr)) arr) < length arr"
    "length (filter (\<lambda>x. f x > f (median_of_three f arr)) arr) < length arr"
    by (simp_all add: partition_shorter)
qed

theorem quick_sort_terminates_witness:
  "(1 :: nat) < length [3, 1, 2 :: int] \<and>
   quick_sort_dom (id, [3, 1, 2 :: int]) \<and>
   median_of_three id [3, 1, 2 :: int] \<in> set [3, 1, 2] \<and>
   filter (\<lambda>x. id x = id (median_of_three id [3, 1, 2 :: int])) [3, 1, 2] \<noteq> [] \<and>
   length (filter (\<lambda>x. id x < id (median_of_three id [3, 1, 2 :: int])) [3, 1, 2]) < length [3, 1, 2 :: int] \<and>
   length (filter (\<lambda>x. id x > id (median_of_three id [3, 1, 2 :: int])) [3, 1, 2]) < length [3, 1, 2 :: int]"
proof -
  have h: "(1 :: nat) < length [3, 1, 2 :: int]" by simp
  from quick_sort_terminates[of id "[3, 1, 2 :: int]"] h show ?thesis by blast
qed

subsection \<open>merge\_sort\<close>

lemma merge_rec_Nil2 [simp]: "merge_rec f xs [] = xs"
  by (cases xs) simp_all

lemma merge_while_rec:
  "(case merge_while f left right i j result of
      (result', i', j') \<Rightarrow> result' @ drop i' left @ drop j' right)
   = result @ merge_rec f (drop i left) (drop j right)"
proof (induction f left right i j result rule: merge_while.induct)
  case (1 f left right i j result)
  show ?case
  proof (cases "i < length left \<and> j < length right")
    case False
    then have "drop i left = [] \<or> drop j right = []" by auto
    with False show ?thesis by (subst merge_while.simps) auto
  next
    case True
    then have dl: "drop i left = left ! i # drop (i + 1) left"
      and dr: "drop j right = right ! j # drop (j + 1) right"
      by (simp_all add: Cons_nth_drop_Suc)
    show ?thesis
    proof (cases "f (left ! i) \<le> f (right ! j)")
      case le: True
      have "merge_rec f (drop i left) (drop j right)
          = merge_rec f (left ! i # drop (i + 1) left) (right ! j # drop (j + 1) right)"
        using dl dr by simp
      also have "\<dots> = left ! i # merge_rec f (drop (i + 1) left) (right ! j # drop (j + 1) right)"
        using le by simp
      also have "\<dots> = left ! i # merge_rec f (drop (i + 1) left) (drop j right)"
        using dr by simp
      finally have step: "merge_rec f (drop i left) (drop j right)
          = left ! i # merge_rec f (drop (i + 1) left) (drop j right)" .
      have "merge_while f left right i j result = merge_while f left right (i + 1) j (result @ [left ! i])"
        using True le by (subst merge_while.simps) simp
      with "1.IH"(1)[OF True le] step show ?thesis by simp
    next
      case gt: False
      have "merge_rec f (drop i left) (drop j right)
          = merge_rec f (left ! i # drop (i + 1) left) (right ! j # drop (j + 1) right)"
        using dl dr by simp
      also have "\<dots> = right ! j # merge_rec f (left ! i # drop (i + 1) left) (drop (j + 1) right)"
        using gt by simp
      also have "\<dots> = right ! j # merge_rec f (drop i left) (drop (j + 1) right)"
        using dl by simp
      finally have step: "merge_rec f (drop i left) (drop j right)
          = right ! j # merge_rec f (drop i left) (drop (j + 1) right)" .
      have "merge_while f left right i j result = merge_while f left right i (j + 1) (result @ [right ! j])"
        using True gt by (subst merge_while.simps) simp
      with "1.IH"(2)[OF True gt] step show ?thesis by simp
    qed
  qed
qed

lemma merge_eq_rec: "merge f left right = merge_rec f left right"
  using merge_while_rec[where f = f and left = left and right = right and i = 0 and j = 0 and result = "[]"]
  by (simp add: merge_def)

lemma mset_merge_rec: "mset (merge_rec f xs ys) = mset xs + mset ys"
  by (induction f xs ys rule: merge_rec.induct) auto

lemma set_merge_rec: "set (merge_rec f xs ys) = set xs \<union> set ys"
  by (induction f xs ys rule: merge_rec.induct) auto

lemma sorted_merge_rec:
  "sorted (map f xs) \<Longrightarrow> sorted (map f ys) \<Longrightarrow> sorted (map f (merge_rec f xs ys))"
  by (induction f xs ys rule: merge_rec.induct) (auto simp: set_merge_rec)

lemma filter_merge_rec:
  "sorted (map f xs) \<Longrightarrow>
   filter (\<lambda>x. f x = k) (merge_rec f xs ys) = filter (\<lambda>x. f x = k) xs @ filter (\<lambda>x. f x = k) ys"
proof (induction f xs ys rule: merge_rec.induct)
  case (3 f x xs y ys)
  show ?case
  proof (cases "f x \<le> f y")
    case True
    with 3 show ?thesis by simp
  next
    case False
    with "3.prems" have "\<forall>z \<in> set (x # xs). f y < f z" by auto
    then have "f y = k \<Longrightarrow> filter (\<lambda>x. f x = k) (x # xs) = []"
      by (auto simp: filter_empty_conv)
    with 3 False show ?thesis by auto
  qed
qed simp_all

lemma merge_sort_unfold:
  "\<not> length arr \<le> 1 \<Longrightarrow>
   merge_sort f arr = merge_rec f (merge_sort f (take (length arr div 2) arr))
                                  (merge_sort f (drop (length arr div 2) arr))"
  by (subst merge_sort.simps) (simp add: Let_def merge_eq_rec)

lemma merge_sort_short: "length arr \<le> 1 \<Longrightarrow> merge_sort f arr = arr"
  by (subst merge_sort.simps) simp

lemma sorted_short: "length arr \<le> 1 \<Longrightarrow> sorted (map f arr)"
  by (cases arr) auto

lemma mset_merge_sort: "mset (merge_sort f arr) = mset arr"
proof (induction f arr rule: merge_sort.induct)
  case (1 f arr)
  show ?case
  proof (cases "length arr \<le> 1")
    case True
    then show ?thesis by (simp add: merge_sort_short)
  next
    case False
    from "1.IH"(1)[OF False refl] "1.IH"(2)[OF False refl refl]
    have "mset (merge_sort f arr) = mset (take (length arr div 2) arr) + mset (drop (length arr div 2) arr)"
      by (simp add: merge_sort_unfold[OF False] mset_merge_rec)
    also have "\<dots> = mset arr" by (metis append_take_drop_id mset_append)
    finally show ?thesis .
  qed
qed

lemma sorted_merge_sort: "sorted (map f (merge_sort f arr))"
proof (induction f arr rule: merge_sort.induct)
  case (1 f arr)
  show ?case
  proof (cases "length arr \<le> 1")
    case True
    then show ?thesis by (simp add: merge_sort_short sorted_short)
  next
    case False
    from "1.IH"(1)[OF False refl] "1.IH"(2)[OF False refl refl]
    show ?thesis
      by (simp add: merge_sort_unfold[OF False] sorted_merge_rec)
  qed
qed

lemma stable_merge_sort:
  "filter (\<lambda>x. f x = k) (merge_sort f arr) = filter (\<lambda>x. f x = k) arr"
proof (induction f arr rule: merge_sort.induct)
  case (1 f arr)
  show ?case
  proof (cases "length arr \<le> 1")
    case True
    then show ?thesis by (simp add: merge_sort_short)
  next
    case False
    from "1.IH"(1)[OF False refl] "1.IH"(2)[OF False refl refl]
    have "filter (\<lambda>x. f x = k) (merge_sort f arr)
        = filter (\<lambda>x. f x = k) (take (length arr div 2) arr) @
          filter (\<lambda>x. f x = k) (drop (length arr div 2) arr)"
      by (simp add: merge_sort_unfold[OF False] filter_merge_rec sorted_merge_sort)
    also have "\<dots> = filter (\<lambda>x. f x = k) arr" by (metis append_take_drop_id filter_append)
    finally show ?thesis .
  qed
qed

subsection \<open>Swapping neighbours\<close>

lemma swap_adjacent:
  assumes "Suc j < length xs"
  shows "xs[j := xs ! Suc j, Suc j := xs ! j] = take j xs @ [xs ! Suc j, xs ! j] @ drop (Suc (Suc j)) xs"
    and "xs = take j xs @ [xs ! j, xs ! Suc j] @ drop (Suc (Suc j)) xs"
proof -
  from assms have j: "j < length xs" by simp
  have d: "xs = take j xs @ xs ! j # xs ! Suc j # drop (Suc (Suc j)) xs"
    using id_take_nth_drop[OF j] Cons_nth_drop_Suc[OF assms] by simp
  then show "xs = take j xs @ [xs ! j, xs ! Suc j] @ drop (Suc (Suc j)) xs" by simp
  have lj: "length (take j xs) = j" using j by simp
  have "(take j xs @ xs ! j # xs ! Suc j # drop (Suc (Suc j)) xs)[j := xs ! Suc j, Suc j := xs ! j]
      = take j xs @ [xs ! Suc j, xs ! j] @ drop (Suc (Suc j)) xs"
    using lj by (simp add: list_update_append)
  with d show "xs[j := xs ! Suc j, Suc j := xs ! j] = take j xs @ [xs ! Suc j, xs ! j] @ drop (Suc (Suc j)) xs"
    by simp
qed

lemma filter_swap_adjacent:
  assumes "Suc j < length xs" and "f (xs ! j) \<noteq> f (xs ! Suc j)"
  shows "filter (\<lambda>x. f x = k) (xs[j := xs ! Suc j, Suc j := xs ! j]) = filter (\<lambda>x. f x = k) xs"
proof -
  have "filter (\<lambda>x. f x = k) (take j xs @ [xs ! Suc j, xs ! j] @ drop (Suc (Suc j)) xs)
      = filter (\<lambda>x. f x = k) (take j xs @ [xs ! j, xs ! Suc j] @ drop (Suc (Suc j)) xs)"
    using assms(2) by auto
  with swap_adjacent[OF assms(1)] show ?thesis by simp
qed

lemma mset_swap_adjacent:
  assumes "Suc j < length xs"
  shows "mset (xs[j := xs ! Suc j, Suc j := xs ! j]) = mset xs"
  using assms by (simp add: mset_swap)

subsection \<open>bubble\_sort\<close>

lemma bubble_inner_done: "\<not> j < m \<Longrightarrow> bubble_inner f m j arr sw = (arr, sw)"
  by (subst bubble_inner.simps) simp

lemma bubble_inner_swap:
  "j < m \<Longrightarrow> f (arr ! Suc j) < f (arr ! j) \<Longrightarrow>
   bubble_inner f m j arr sw = bubble_inner f m (Suc j) (arr[j := arr ! Suc j, Suc j := arr ! j]) True"
  by (subst bubble_inner.simps) simp

lemma bubble_inner_keep:
  "j < m \<Longrightarrow> \<not> f (arr ! Suc j) < f (arr ! j) \<Longrightarrow>
   bubble_inner f m j arr sw = bubble_inner f m (Suc j) arr sw"
  by (subst bubble_inner.simps) simp

lemma bubble_inner_perm:
  "m < length arr \<Longrightarrow>
   length (fst (bubble_inner f m j arr sw)) = length arr \<and>
   mset (fst (bubble_inner f m j arr sw)) = mset arr \<and>
   filter (\<lambda>x. f x = k) (fst (bubble_inner f m j arr sw)) = filter (\<lambda>x. f x = k) arr \<and>
   drop (Suc m) (fst (bubble_inner f m j arr sw)) = drop (Suc m) arr"
proof (induction f m j arr sw rule: bubble_inner.induct)
  case (1 f m j arr sw)
  show ?case
  proof (cases "j < m")
    case False
    then show ?thesis by (simp add: bubble_inner_done)
  next
    case True
    with 1(3) have sj: "Suc j < length arr" by simp
    show ?thesis
    proof (cases "f (arr ! Suc j) < f (arr ! j)")
      case sw: True
      let ?a = "arr[j := arr ! Suc j, Suc j := arr ! j]"
      from sw have ne: "f (arr ! j) \<noteq> f (arr ! Suc j)" by simp
      from "1.IH"(1)[OF True] sw 1(3)
      have "length (fst (bubble_inner f m (Suc j) ?a True)) = length ?a \<and>
            mset (fst (bubble_inner f m (Suc j) ?a True)) = mset ?a \<and>
            filter (\<lambda>x. f x = k) (fst (bubble_inner f m (Suc j) ?a True)) = filter (\<lambda>x. f x = k) ?a \<and>
            drop (Suc m) (fst (bubble_inner f m (Suc j) ?a True)) = drop (Suc m) ?a"
        by simp
      moreover have "drop (Suc m) ?a = drop (Suc m) arr" using True by simp
      ultimately show ?thesis
        using mset_swap_adjacent[OF sj] filter_swap_adjacent[OF sj ne, of k]
        by (simp add: bubble_inner_swap[OF True sw])
    next
      case keep: False
      from "1.IH"(2)[OF True] keep 1(3) show ?thesis
        by (simp add: bubble_inner_keep[OF True keep])
    qed
  qed
qed

lemma bubble_inner_max:
  "m < length arr \<Longrightarrow> j \<le> m \<Longrightarrow> (\<forall>i \<le> j. f (arr ! i) \<le> f (arr ! j)) \<Longrightarrow>
   \<forall>i \<le> m. f (fst (bubble_inner f m j arr sw) ! i) \<le> f (fst (bubble_inner f m j arr sw) ! m)"
proof (induction f m j arr sw rule: bubble_inner.induct)
  case (1 f m j arr sw)
  note IH = "1.IH" and len = "1.prems"(1) and jm = "1.prems"(2) and mx = "1.prems"(3)
  show ?case
  proof (cases "j < m")
    case False
    with jm have "j = m" by simp
    with mx False show ?thesis by (simp add: bubble_inner_done)
  next
    case True
    with len have sj: "Suc j < length arr" by simp
    show ?thesis
    proof (cases "f (arr ! Suc j) < f (arr ! j)")
      case sw: True
      let ?a = "arr[j := arr ! Suc j, Suc j := arr ! j]"
      have "\<forall>i \<le> Suc j. f (?a ! i) \<le> f (?a ! Suc j)"
      proof (intro allI impI)
        fix i assume "i \<le> Suc j"
        then consider (lt) "i < j" | (eq) "i = j" | (su) "i = Suc j" by linarith
        then show "f (?a ! i) \<le> f (?a ! Suc j)"
        proof cases
          case lt
          with sj mx show ?thesis by simp
        next
          case eq
          with sj sw show ?thesis by simp
        next
          case su
          then show ?thesis by simp
        qed
      qed
      with IH(1)[OF True] sw True len show ?thesis
        by (simp add: bubble_inner_swap[OF True sw])
    next
      case keep: False
      have "\<forall>i \<le> Suc j. f (arr ! i) \<le> f (arr ! Suc j)"
      proof (intro allI impI)
        fix i assume "i \<le> Suc j"
        then consider (le) "i \<le> j" | (su) "i = Suc j" by linarith
        then show "f (arr ! i) \<le> f (arr ! Suc j)"
        proof cases
          case le
          with mx have "f (arr ! i) \<le> f (arr ! j)" by simp
          with keep show ?thesis by simp
        next
          case su
          then show ?thesis by simp
        qed
      qed
      with IH(2)[OF True] keep True len show ?thesis
        by (simp add: bubble_inner_keep[OF True keep])
    qed
  qed
qed

lemma bubble_inner_no_swap:
  "\<not> snd (bubble_inner f m j arr sw) \<Longrightarrow>
   \<not> sw \<and> fst (bubble_inner f m j arr sw) = arr \<and>
   (\<forall>i. j \<le> i \<and> i < m \<longrightarrow> f (arr ! i) \<le> f (arr ! Suc i))"
proof (induction f m j arr sw rule: bubble_inner.induct)
  case (1 f m j arr sw)
  note IH = "1.IH" and ns = "1.prems"
  show ?case
  proof (cases "j < m")
    case False
    with ns show ?thesis by (auto simp: bubble_inner_done)
  next
    case True
    show ?thesis
    proof (cases "f (arr ! Suc j) < f (arr ! j)")
      case sw: True
      have eq: "bubble_inner f m j arr sw
          = bubble_inner f m (Suc j) (arr[j := arr ! Suc j, Suc j := arr ! j]) True"
        by (rule bubble_inner_swap[OF True sw])
      from ns have "\<not> snd (bubble_inner f m (j + 1) (arr[j := arr ! (j + 1), j + 1 := arr ! j]) True)"
        unfolding eq by simp
      moreover from sw have "f (arr ! j) > f (arr ! (j + 1))" by simp
      ultimately have False using IH(1)[OF True] by blast
      then show ?thesis ..
    next
      case keep: False
      have eq: "bubble_inner f m j arr sw = bubble_inner f m (Suc j) arr sw"
        by (rule bubble_inner_keep[OF True keep])
      from ns have ns': "\<not> snd (bubble_inner f m (Suc j) arr sw)" unfolding eq .
      from keep have keep': "\<not> f (arr ! j) > f (arr ! (j + 1))" by simp
      from ns' have ns'': "\<not> snd (bubble_inner f m (j + 1) arr sw)" by simp
      from IH(2)[OF True keep' ns'']
      have r: "\<not> sw" "fst (bubble_inner f m (Suc j) arr sw) = arr"
        "\<forall>i. Suc j \<le> i \<and> i < m \<longrightarrow> f (arr ! i) \<le> f (arr ! Suc i)"
        by auto
      have "\<forall>i. j \<le> i \<and> i < m \<longrightarrow> f (arr ! i) \<le> f (arr ! Suc i)"
      proof (intro allI impI)
        fix i assume "j \<le> i \<and> i < m"
        then consider (eq) "i = j" | (gt) "Suc j \<le> i \<and> i < m" by linarith
        then show "f (arr ! i) \<le> f (arr ! Suc i)"
          using keep r(3) by cases auto
      qed
      with r(1,2) show ?thesis unfolding eq by blast
    qed
  qed
qed


lemma bubble_outer_done: "\<not> i < n \<Longrightarrow> bubble_outer f n i arr = arr"
  by (subst bubble_outer.simps) simp

lemma bubble_outer_step:
  "i < n \<Longrightarrow> bubble_outer f n i arr =
     (if \<not> snd (bubble_inner f (n - i - 1) 0 arr False)
      then fst (bubble_inner f (n - i - 1) 0 arr False)
      else bubble_outer f n (i + 1) (fst (bubble_inner f (n - i - 1) 0 arr False)))"
  by (subst bubble_outer.simps) (simp add: case_prod_beta)

lemma bubble_outer_perm:
  "length arr = n \<Longrightarrow>
   mset (bubble_outer f n i arr) = mset arr \<and>
   filter (\<lambda>x. f x = k) (bubble_outer f n i arr) = filter (\<lambda>x. f x = k) arr"
proof (induction f n i arr rule: bubble_outer.induct)
  case (1 f n i arr)
  note IH = "1.IH" and len = "1.prems"
  show ?case
  proof (cases "i < n")
    case False
    then show ?thesis by (simp add: bubble_outer_done)
  next
    case True
    let ?r = "bubble_inner f (n - i - 1) 0 arr False"
    from True len have m: "n - i - 1 < length arr" by simp
    note p = bubble_inner_perm[OF m, of f 0 False k]
    show ?thesis
    proof (cases "snd ?r")
      case False
      with p show ?thesis by (simp add: bubble_outer_step[OF True])
    next
      case sw: True
      from p len have l: "length (fst ?r) = n" by simp
      from sw have "\<not> \<not> snd ?r" by simp
      from IH[OF True prod.collapse this l] p sw show ?thesis
        by (simp add: bubble_outer_step[OF True])
    qed
  qed
qed

lemma mset_take_from_drop:
  assumes "mset xs = mset ys" and "drop n xs = drop n ys"
  shows "mset (take n xs) = mset (take n ys)"
proof -
  have "mset (take n xs) + mset (drop n xs) = mset (take n ys) + mset (drop n ys)"
    using assms(1) by (metis append_take_drop_id mset_append)
  with assms(2) show ?thesis by simp
qed

lemma sorted_from_neighbours:
  assumes "\<forall>i. i < m \<longrightarrow> f (xs ! i) \<le> f (xs ! Suc i)" and "Suc m \<le> length xs"
  shows "sorted (map f (take (Suc m) xs))"
proof -
  have "\<forall>i. Suc i < length (map f (take (Suc m) xs)) \<longrightarrow>
      map f (take (Suc m) xs) ! i \<le> map f (take (Suc m) xs) ! Suc i"
    using assms by auto
  then show ?thesis by (simp only: sorted_iff_nth_Suc)
qed

lemma bubble_outer_sorted:
  "length arr = n \<Longrightarrow> sorted (map f (drop (n - i) arr)) \<Longrightarrow>
   (\<forall>x \<in> set (take (n - i) arr). \<forall>y \<in> set (drop (n - i) arr). f x \<le> f y) \<Longrightarrow>
   sorted (map f (bubble_outer f n i arr))"
proof (induction f n i arr rule: bubble_outer.induct)
  case (1 f n i arr)
  note IH = "1.IH" and len = "1.prems"(1) and srt = "1.prems"(2) and cross = "1.prems"(3)
  show ?case
  proof (cases "i < n")
    case False
    with srt show ?thesis by (simp add: bubble_outer_done)
  next
    case True
    define m where "m = n - i - 1"
    let ?r = "bubble_inner f m 0 arr False"
    let ?a = "fst ?r"
    from True have sm: "Suc m = n - i" by (simp add: m_def)
    from True len have m: "m < length arr" by (simp add: m_def)
    from bubble_inner_perm[OF m, of f 0 False]
    have la: "length ?a = length arr" and ms: "mset ?a = mset arr"
      and dr: "drop (Suc m) ?a = drop (Suc m) arr" by blast+
    have step: "bubble_outer f n i arr = (if \<not> snd ?r then ?a else bubble_outer f n (i + 1) ?a)"
      using bubble_outer_step[OF True, of f arr] by (simp add: m_def)
    show ?thesis
    proof (cases "snd ?r")
      case False
      from bubble_inner_no_swap[OF False]
      have same: "?a = arr" and nb: "\<forall>i. i < m \<longrightarrow> f (arr ! i) \<le> f (arr ! Suc i)" by auto
      from m have "Suc m \<le> length arr" by simp
      from sorted_from_neighbours[OF nb this] have "sorted (map f (take (Suc m) arr))" .
      with srt cross have "sorted (map f (take (Suc m) arr @ drop (Suc m) arr))"
        unfolding sm by (simp only: map_append sorted_append set_map) auto
      then have "sorted (map f arr)" by simp
      with False same show ?thesis by (simp add: step)
    next
      case sw: True
      from mset_take_from_drop[OF ms dr] have "set (take (Suc m) ?a) = set (take (Suc m) arr)"
        by (metis set_mset_mset)
      with cross dr have cross': "\<forall>x \<in> set (take (Suc m) ?a). \<forall>y \<in> set (drop (Suc m) ?a). f x \<le> f y"
        unfolding sm by simp
      from m la have ma: "m < length ?a" by simp
      have mx: "\<forall>i \<le> m. f (?a ! i) \<le> f (?a ! m)"
        by (rule bubble_inner_max[OF m]) simp_all
      have dm: "drop m ?a = ?a ! m # drop (Suc m) ?a"
        using ma by (simp add: Cons_nth_drop_Suc)
      have am: "?a ! m \<in> set (take (Suc m) ?a)"
        using ma by (auto simp: in_set_conv_nth intro!: exI[of _ m])
      have s1: "sorted (map f (drop m ?a))"
        using srt cross' am dr unfolding dm sm by auto
      have c1: "\<forall>x \<in> set (take m ?a). \<forall>y \<in> set (drop m ?a). f x \<le> f y"
      proof (intro ballI)
        fix x y assume x: "x \<in> set (take m ?a)" and y: "y \<in> set (drop m ?a)"
        from x obtain i' where i': "i' < m" "x = ?a ! i'"
          using ma by (auto simp: in_set_conv_nth)
        with mx have xm: "f x \<le> f (?a ! m)" by simp
        from x have "x \<in> set (take (Suc m) ?a)"
          by (meson le_SucI order_refl set_take_subset_set_take subsetD)
        with cross' have "\<forall>y \<in> set (drop (Suc m) ?a). f x \<le> f y" by blast
        with xm y show "f x \<le> f y" unfolding dm by auto
      qed
      from True have nm: "n - (i + 1) = m" by (simp add: m_def)
      from la len have l: "length ?a = n" by simp
      from sw have nn: "\<not> \<not> snd (bubble_inner f (n - i - 1) 0 arr False)" by (simp add: m_def)
      have "sorted (map f (bubble_outer f n (i + 1) (fst (bubble_inner f (n - i - 1) 0 arr False))))"
        using IH[OF True prod.collapse nn] l s1 c1 unfolding nm m_def[symmetric]
        by blast
      with sw show ?thesis by (simp add: step m_def)
    qed
  qed
qed

lemma bubble_sort_correct:
  "mset (bubble_sort f arr) = mset arr"
  "sorted (map f (bubble_sort f arr))"
  "filter (\<lambda>x. f x = k) (bubble_sort f arr) = filter (\<lambda>x. f x = k) arr"
  using bubble_outer_perm[OF refl, where f = f and i = 0 and arr = arr and k = k]
    bubble_outer_sorted[OF refl, where f = f and i = 0 and arr = arr]
  by (simp_all add: bubble_sort_def)

subsection \<open>insertion\_sort\<close>

lemma insertion_while_stop:
  "\<not> (0 \<le> j \<and> f key < f (arr ! nat j)) \<Longrightarrow> insertion_while f key j arr = (arr, j)"
  by (subst insertion_while.simps) auto

lemma insertion_while_shift:
  "0 \<le> j \<Longrightarrow> f key < f (arr ! nat j) \<Longrightarrow>
   insertion_while f key j arr = insertion_while f key (j - 1) (arr[nat (j + 1) := arr ! nat j])"
  by (subst insertion_while.simps) simp

lemma insertion_while_spec:
  "p < length arr \<Longrightarrow>
   \<exists>arr' q. insertion_while f key (int p - 1) arr = (arr', int q - 1) \<and> q \<le> p \<and>
     arr'[q := key] = take q arr @ [key] @ take (p - q) (drop q arr) @ drop (Suc p) arr \<and>
     (\<forall>x \<in> set (take (p - q) (drop q arr)). f key < f x) \<and>
     (0 < q \<longrightarrow> f (arr ! (q - 1)) \<le> f key)"
proof (induction p arbitrary: arr)
  case 0
  have "insertion_while f key (int 0 - 1) arr = (arr, int 0 - 1)"
    by (rule insertion_while_stop) simp
  moreover from 0 have "arr[0 := key] = take 0 arr @ [key] @ take (0 - 0) (drop 0 arr) @ drop (Suc 0) arr"
    by (simp add: upd_conv_take_nth_drop)
  ultimately show ?case by (intro exI[of _ arr] exI[of _ 0]) simp
next
  case (Suc p)
  show ?case
  proof (cases "f key < f (arr ! p)")
    case False
    have "insertion_while f key (int (Suc p) - 1) arr = (arr, int (Suc p) - 1)"
      using False by (intro insertion_while_stop) simp
    moreover from Suc.prems
    have "arr[Suc p := key]
        = take (Suc p) arr @ [key] @ take (Suc p - Suc p) (drop (Suc p) arr) @ drop (Suc (Suc p)) arr"
      by (simp add: upd_conv_take_nth_drop)
    ultimately show ?thesis using False
      by (intro exI[of _ arr] exI[of _ "Suc p"]) simp
  next
    case True
    let ?a = "arr[Suc p := arr ! p]"
    have eq: "insertion_while f key (int (Suc p) - 1) arr = insertion_while f key (int p - 1) ?a"
      using insertion_while_shift[of "int p" f key arr] True by (simp add: nat_add_distrib)
    from Suc.prems have "p < length ?a" by simp
    from Suc.IH[OF this] obtain arr' q where
      r: "insertion_while f key (int p - 1) ?a = (arr', int q - 1)" and qp: "q \<le> p"
      and dec: "arr'[q := key] = take q ?a @ [key] @ take (p - q) (drop q ?a) @ drop (Suc p) ?a"
      and gt: "\<forall>x \<in> set (take (p - q) (drop q ?a)). f key < f x"
      and le: "0 < q \<longrightarrow> f (?a ! (q - 1)) \<le> f key"
      by blast
    from qp have t1: "take q ?a = take q arr" by simp
    from qp have t2: "take (p - q) (drop q ?a) = take (p - q) (drop q arr)"
      by (simp add: drop_update_swap)
    from Suc.prems have t3: "drop (Suc p) ?a = arr ! p # drop (Suc (Suc p)) arr"
      by (simp add: Cons_nth_drop_Suc[symmetric] drop_update_swap Suc_diff_le)
    from qp Suc.prems have t4: "take (Suc p - q) (drop q arr) = take (p - q) (drop q arr) @ [arr ! p]"
      by (simp add: Suc_diff_le take_Suc_conv_app_nth)
    from dec have dec': "arr'[q := key]
        = take q arr @ [key] @ take (Suc p - q) (drop q arr) @ drop (Suc (Suc p)) arr"
      unfolding t1 t2 t3 t4 by simp
    from gt True have gt': "\<forall>x \<in> set (take (Suc p - q) (drop q arr)). f key < f x"
      unfolding t2 t4 by simp
    from le qp have le': "0 < q \<longrightarrow> f (arr ! (q - 1)) \<le> f key" by auto
    from r qp dec' gt' le' show ?thesis unfolding eq
      by (intro exI[of _ arr'] exI[of _ q]) simp
  qed
qed


lemma insertion_for_done: "\<not> i < n \<Longrightarrow> insertion_for f n i arr = arr"
  by (subst insertion_for.simps) simp

lemma insertion_for_step:
  "i < n \<Longrightarrow> insertion_for f n i arr =
     insertion_for f n (i + 1)
       ((fst (insertion_while f (arr ! i) (int i - 1) arr))
          [nat (snd (insertion_while f (arr ! i) (int i - 1) arr) + 1) := arr ! i])"
  by (subst insertion_for.simps) (simp add: case_prod_beta Let_def)

lemma insert_key_sorted:
  assumes srt: "sorted (map f (A @ B))" and gt: "\<forall>x \<in> set B. f key < f x"
    and le: "A \<noteq> [] \<longrightarrow> f (last A) \<le> f key"
  shows "sorted (map f (A @ [key] @ B))"
proof -
  from srt have sA: "sorted (map f A)" and sB: "sorted (map f B)" by (simp_all add: sorted_append)
  have "\<forall>x \<in> set A. f x \<le> f key"
  proof
    fix x assume x: "x \<in> set A"
    then have ne: "A \<noteq> []" by auto
    from x obtain i where i: "i < length A" "x = A ! i" by (auto simp: in_set_conv_nth)
    from sA i ne have "map f A ! i \<le> map f A ! (length A - 1)"
      by (intro sorted_nth_mono) auto
    with i ne have "f x \<le> f (last A)" by (simp add: last_conv_nth)
    with le ne show "f x \<le> f key" by auto
  qed
  with srt gt sA sB show ?thesis by (auto simp: sorted_append less_imp_le)
qed

lemma insertion_step:
  assumes i: "i < length arr" and srt: "sorted (map f (take i arr))"
  defines "arr'' \<equiv> (fst (insertion_while f (arr ! i) (int i - 1) arr))
          [nat (snd (insertion_while f (arr ! i) (int i - 1) arr) + 1) := arr ! i]"
  shows "length arr'' = length arr" and "mset arr'' = mset arr"
    and "filter (\<lambda>x. f x = k) arr'' = filter (\<lambda>x. f x = k) arr"
    and "sorted (map f (take (Suc i) arr''))"
proof -
  let ?key = "arr ! i"
  from insertion_while_spec[OF i, of f ?key] obtain arr' q where
    r: "insertion_while f ?key (int i - 1) arr = (arr', int q - 1)" and qi: "q \<le> i"
    and dec: "arr'[q := ?key] = take q arr @ [?key] @ take (i - q) (drop q arr) @ drop (Suc i) arr"
    and gt: "\<forall>x \<in> set (take (i - q) (drop q arr)). f ?key < f x"
    and le: "0 < q \<longrightarrow> f (arr ! (q - 1)) \<le> f ?key"
    by blast
  let ?A = "take q arr" and ?B = "take (i - q) (drop q arr)" and ?C = "drop (Suc i) arr"
  have a2: "arr'' = ?A @ [?key] @ ?B @ ?C"
    unfolding arr''_def r using dec by simp
  from qi have AB: "?A @ ?B = take i arr"
    using take_add[of q "i - q" arr] by simp
  from i have a1: "arr = take i arr @ [?key] @ ?C"
    by (simp add: id_take_nth_drop[symmetric])
  have a0: "arr = ?A @ ?B @ [?key] @ ?C"
    by (metis a1 AB append_assoc)
  have lA: "length ?A = q" using qi i by simp
  have lB: "length ?B = i - q" using qi i by simp
  have "length (?A @ [?key] @ ?B @ ?C) = length (?A @ ?B @ [?key] @ ?C)" by simp
  with a0 a2 show "length arr'' = length arr" by metis
  have "mset (?A @ [?key] @ ?B @ ?C) = mset (?A @ ?B @ [?key] @ ?C)" by simp
  with a0 a2 show "mset arr'' = mset arr" by metis
  have "filter (\<lambda>x. f x = k) (?A @ [?key] @ ?B @ ?C) = filter (\<lambda>x. f x = k) (?A @ ?B @ [?key] @ ?C)"
  proof (cases "f ?key = k")
    case True
    with gt have "filter (\<lambda>x. f x = k) ?B = []" by (auto simp: filter_empty_conv)
    then show ?thesis by simp
  next
    case False
    then show ?thesis by simp
  qed
  with a0 a2 show "filter (\<lambda>x. f x = k) arr'' = filter (\<lambda>x. f x = k) arr" by metis
  have la: "A \<noteq> [] \<longrightarrow> f (last A) \<le> f ?key" if "A = ?A" for A
  proof
    assume "A \<noteq> []"
    with that lA have q0: "0 < q" by auto
    from q0 qi i have ne: "take q arr \<noteq> []" by auto
    from q0 have "take q arr ! (q - 1) = arr ! (q - 1)" by (intro nth_take) simp
    with last_conv_nth[OF ne] lA that have "last A = arr ! (q - 1)" by simp
    with le q0 show "f (last A) \<le> f ?key" by simp
  qed
  from srt AB have "sorted (map f (?A @ ?B))" by simp
  from insert_key_sorted[OF this gt la[OF refl]]
  have sk: "sorted (map f (?A @ [?key] @ ?B))" .
  have len3: "length (?A @ [?key] @ ?B) = Suc i" using lA lB qi by simp
  have "take (Suc i) ((?A @ [?key] @ ?B) @ ?C) = ?A @ [?key] @ ?B"
    using len3 by (metis append_eq_conv_conj)
  then have "take (Suc i) arr'' = ?A @ [?key] @ ?B"
    unfolding a2 by simp
  with sk show "sorted (map f (take (Suc i) arr''))" by simp
qed

lemma insertion_for_correct:
  "length arr = n \<Longrightarrow> sorted (map f (take i arr)) \<Longrightarrow>
   mset (insertion_for f n i arr) = mset arr \<and>
   filter (\<lambda>x. f x = k) (insertion_for f n i arr) = filter (\<lambda>x. f x = k) arr \<and>
   sorted (map f (insertion_for f n i arr))"
proof (induction f n i arr rule: insertion_for.induct)
  case (1 f n i arr)
  note IH = "1.IH" and len = "1.prems"(1) and srt = "1.prems"(2)
  show ?case
  proof (cases "i < n")
    case False
    with len srt show ?thesis by (simp add: insertion_for_done)
  next
    case True
    let ?w = "insertion_while f (arr ! i) (int i - 1) arr"
    let ?a = "(fst ?w)[nat (snd ?w + 1) := arr ! i]"
    from True len have i: "i < length arr" by simp
    note st1 = insertion_step(1)[OF i srt] and st2 = insertion_step(2)[OF i srt]
      and st3 = insertion_step(3)[OF i srt, of k] and st4 = insertion_step(4)[OF i srt]
    from st1 len have l: "length ?a = n" by simp
    from st4 have s: "sorted (map f (take (i + 1) ?a))" by simp
    from IH[OF True refl prod.collapse l s] st2 st3 show ?thesis
      by (simp add: insertion_for_step[OF True])
  qed
qed

lemma insertion_sort_correct:
  "mset (insertion_sort f arr) = mset arr"
  "sorted (map f (insertion_sort f arr))"
  "filter (\<lambda>x. f x = k) (insertion_sort f arr) = filter (\<lambda>x. f x = k) arr"
proof -
  have "sorted (map f (take 1 arr))" by (cases arr) simp_all
  from insertion_for_correct[OF refl this, where k = k]
  show "mset (insertion_sort f arr) = mset arr"
    "sorted (map f (insertion_sort f arr))"
    "filter (\<lambda>x. f x = k) (insertion_sort f arr) = filter (\<lambda>x. f x = k) arr"
    by (simp_all add: insertion_sort_def)
qed


subsection \<open>The four sorting functions\<close>

text \<open>
  Claim C7: for every finite sequence \<open>s\<close> and each of \<open>bubble_sort\<close>, \<open>insertion_sort\<close>,
  \<open>merge_sort\<close> and \<open>quick_sort\<close>, the result holds exactly the multiset of elements of \<open>s\<close>
  and is in non-descending order (of the ranks \<open>f\<close>; the elements themselves when \<open>f\<close> is
  the identity).
\<close>

theorem sorts_permutation_sorted:
  "mset (bubble_sort f s) = mset s \<and> sorted (map f (bubble_sort f s)) \<and>
   mset (insertion_sort f s) = mset s \<and> sorted (map f (insertion_sort f s)) \<and>
   mset (merge_sort f s) = mset s \<and> sorted (map f (merge_sort f s)) \<and>
   mset (quick_sort f s) = mset s \<and> sorted (map f (quick_sort f s)) \<and>
   sorted (bubble_sort id t) \<and> sorted (insertion_sort id t) \<and>
   sorted (merge_sort id t) \<and> sorted (quick_sort id t)"
proof -
  have "sorted (map id (bubble_sort id t))" "sorted (map id (insertion_sort id t))"
    "sorted (map id (merge_sort id t))" "sorted (map id (quick_sort id t))"
    by (rule bubble_sort_correct insertion_sort_correct sorted_merge_sort sorted_quick_sort)+
  then have "sorted (bubble_sort id t)" "sorted (insertion_sort id t)"
    "sorted (merge_sort id t)" "sorted (quick_sort id t)"
    by simp_all
  then show ?thesis
    by (simp add: bubble_sort_correct insertion_sort_correct mset_merge_sort sorted_merge_sort
        mset_quick_sort sorted_quick_sort)
qed

text \<open>
  Claim C8: \<open>bubble_sort\<close>, \<open>insertion_sort\<close> and \<open>merge_sort\<close> are stable. Elements that
  compare equal are the elements of one rank \<open>k\<close>; the list of the elements of rank \<open>k\<close>,
  in their order, is the same in the output as in the input.
\<close>

theorem sorts_stable:
  "filter (\<lambda>x. f x = k) (bubble_sort f s) = filter (\<lambda>x. f x = k) s \<and>
   filter (\<lambda>x. f x = k) (insertion_sort f s) = filter (\<lambda>x. f x = k) s \<and>
   filter (\<lambda>x. f x = k) (merge_sort f s) = filter (\<lambda>x. f x = k) s"
  by (simp add: bubble_sort_correct insertion_sort_correct stable_merge_sort)

section \<open>The model on concrete inputs\<close>

text \<open>
  The sorting functions on a list with elements that compare equal, and the asserts of
  tests/test\_arrays.py together with the demo of arrays.py, evaluated on the model.
\<close>

lemma sorting_examples:
  "bubble_sort fst [(2, ''a''), (1, ''b''), (2, ''c''), (1, ''d''), (0 :: int, ''e'')]
     = [(0, ''e''), (1, ''b''), (1, ''d''), (2, ''a''), (2, ''c'')]"
  "insertion_sort fst [(2, ''a''), (1, ''b''), (2, ''c''), (1, ''d''), (0 :: int, ''e'')]
     = [(0, ''e''), (1, ''b''), (1, ''d''), (2, ''a''), (2, ''c'')]"
  "merge_sort fst [(2, ''a''), (1, ''b''), (2, ''c''), (1, ''d''), (0 :: int, ''e'')]
     = [(0, ''e''), (1, ''b''), (1, ''d''), (2, ''a''), (2, ''c'')]"
  "quick_sort id [3, 1, 2, 5, 4, 0, 3 :: int] = [0, 1, 2, 3, 3, 4, 5]"
  by code_simp+

lemma dynamic_array_examples:
  "capacity (run [Append (Some 1), Append (Some 2), Append (Some (3 :: int))] (init 2)) = 4"
  "len (run [Append (Some 1), Append (Some 2), Append (Some (3 :: int))] (init 2)) = 3"
  "fst (getitem 0 (run [Append (Some 1), Append (Some 2), Append (Some (3 :: int))] (init 10))) = Inr (Some 1)"
  "fst (getitem 2 (run [Append (Some 1), Append (Some 2), Append (Some (3 :: int))] (init 10))) = Inr (Some 3)"
  "array (run [Append (Some 0), Append (Some 1), Append (Some 2), Insert 1 (Some (99 :: int))] (init 10))
     = [Some 0, Some 99, Some 1, Some 2, None, None, None, None, None, None]"
  "array (run [Append (Some 0), Append (Some 1), Append (Some 2), Insert 1 (Some (99 :: int)),
               Remove (Some 99)] (init 10))
     = [Some 0, Some 1, Some 2, None, None, None, None, None, None, None]"
  "two_sum [2, 7, 11, 15] 9 = Some (0, 1)" "two_sum [2, 7, 11, 15] 26 = Some (2, 3)"
  "two_sum [2, 7, 11, 15] 100 = None"
  by code_simp+

end
